theory Spec2Isabelle
  imports Complex_Main "HOL-Library.Multiset"
begin

section \<open>Constants of TAPjack.c\<close>

definition THRESHOLD :: int where "THRESHOLD = 200"

definition WIDTH :: real where "WIDTH = 22"

definition DIST_HIT :: real where "DIST_HIT = 8"

definition DIST_STAY :: real where "DIST_STAY = 35"

definition SINGLEDECK :: int where "SINGLEDECK = 52"

definition MAXSUIT :: int where "MAXSUIT = 13"

definition MAXHAND :: int where "MAXHAND = 12"

definition HIT :: int where "HIT = 1"

definition STAY :: int where "STAY = 2"

definition NOACTION :: int where "NOACTION = 3"


section \<open>Data model\<close>

text \<open>
  \<^verbatim>\<open>typedef struct hand\<close>: three arrays of \<^verbatim>\<open>MAXHAND\<close> cells and five \<^verbatim>\<open>int\<close>
  fields. The flags \<^verbatim>\<open>busted\<close> and \<^verbatim>\<open>empty\<close> are C truth values (zero is false);
  \<^verbatim>\<open>soft\<close> is a counter. All values stay far inside the 16-bit range of an AVR
  \<^verbatim>\<open>int\<close>, so the fields are unbounded integers here.
\<close>

record hand =
  rank :: "int list"
  suit :: "char list"
  isFaceDown :: "int list"
  handsize :: int
  handvalue :: int
  busted :: int
  soft :: int
  empty :: int

text \<open>The global deck: \<^verbatim>\<open>rankG\<close>, \<^verbatim>\<open>suitG\<close> (arrays of \<^verbatim>\<open>SINGLEDECK\<close> cells) and \<^verbatim>\<open>indexG\<close>.\<close>

record deck =
  rankG :: "int list"
  suitG :: "char list"
  indexG :: int

text \<open>
  Array sizes are part of the C types; an index into a hand or into the deck is read as a
  natural number, which is what the code relies on (\<^verbatim>\<open>handsize\<close> and \<^verbatim>\<open>indexG\<close> start at 0
  and the program never makes them negative).
\<close>

definition hand_wf :: "hand \<Rightarrow> bool" where
  "hand_wf p = (length (rank p) = nat MAXHAND \<and> length (suit p) = nat MAXHAND
      \<and> length (isFaceDown p) = nat MAXHAND \<and> 0 \<le> handsize p)"

definition deck_wf :: "deck \<Rightarrow> bool" where
  "deck_wf d = (length (rankG d) = nat SINGLEDECK \<and> length (suitG d) = nat SINGLEDECK
      \<and> 0 \<le> indexG d)"

text \<open>C globals start zeroed: the hands and the deck before \<^verbatim>\<open>main\<close> runs.\<close>

definition hand0 :: hand where
  "hand0 = \<lparr>rank = replicate (nat MAXHAND) 0, suit = replicate (nat MAXHAND) (CHR 0x00),
            isFaceDown = replicate (nat MAXHAND) 0, handsize = 0, handvalue = 0,
            busted = 0, soft = 0, empty = 0\<rparr>"

definition deck0 :: deck where
  "deck0 = \<lparr>rankG = replicate (nat SINGLEDECK) 0,
            suitG = replicate (nat SINGLEDECK) (CHR 0x00), indexG = 0\<rparr>"


section \<open>Hands and dealing\<close>

definition emptyHand :: "hand \<Rightarrow> hand" where
  "emptyHand p = p\<lparr>rank := replicate (nat MAXHAND) 0,
                   suit := replicate (nat MAXHAND) (CHR 0x00),
                   isFaceDown := replicate (nat MAXHAND) 0,
                   handsize := 0, handvalue := 0, busted := 0, soft := 0, empty := 1\<rparr>"

definition cannot_deal_msg :: string where
  "cannot_deal_msg = ''ERROR: Cannot Deal Card!'' @ [CHR 0x0A]"

text \<open>The \<^verbatim>\<open>switch (rank)\<close> of \<^verbatim>\<open>dealCard\<close>.\<close>

definition score_card :: "int \<Rightarrow> hand \<Rightarrow> hand" where
  "score_card r p =
     (if r = 1 then p\<lparr>handvalue := handvalue p + 11, soft := soft p + 1\<rparr>
      else if r = 10 \<or> r = 11 \<or> r = 12 \<or> r = 13 then p\<lparr>handvalue := handvalue p + 10\<rparr>
      else p\<lparr>handvalue := handvalue p + r\<rparr>)"

text \<open>The \<^verbatim>\<open>if (p->handvalue > 21)\<close> block of \<^verbatim>\<open>dealCard\<close>: one test, no loop.\<close>

definition settle_bust :: "hand \<Rightarrow> hand" where
  "settle_bust p =
     (if handvalue p > 21
      then (if soft p > 0 then p\<lparr>handvalue := handvalue p - 10, soft := soft p - 1\<rparr>
            else p\<lparr>busted := 1\<rparr>)
      else p)"

text \<open>
  \<^verbatim>\<open>void dealCard(hand *p)\<close> works on the global deck and on the hand it is given. The
  model passes both and returns the text sent to the terminal together with the new deck
  and hand.
\<close>

definition dealCard :: "deck \<Rightarrow> hand \<Rightarrow> string \<times> deck \<times> hand" where
  "dealCard d p =
     (if indexG d \<ge> SINGLEDECK \<or> handsize p \<ge> MAXHAND then (cannot_deal_msg, d, p)
      else
        let r = rankG d ! nat (indexG d);
            p1 = p\<lparr>rank := (rank p)[nat (handsize p) := r]\<rparr>;
            p2 = p1\<lparr>suit := (suit p1)[nat (handsize p1) := suitG d ! nat (indexG d)]\<rparr>;
            p3 = p2\<lparr>handsize := handsize p2 + 1\<rparr>;
            d1 = d\<lparr>indexG := indexG d + 1\<rparr>;
            p4 = score_card r p3;
            p5 = settle_bust p4
        in ([], d1, p5\<lparr>empty := 0\<rparr>))"

text \<open>
  \<open>deal_n n\<close>: \<open>n\<close> successive calls \<^verbatim>\<open>dealCard(&p)\<close> on the same hand, as the dealing
  loops of \<^verbatim>\<open>main\<close> and \<^verbatim>\<open>playTurn\<close> make them.
\<close>

fun deal_n :: "nat \<Rightarrow> deck \<Rightarrow> hand \<Rightarrow> deck \<times> hand" where
  "deal_n 0 d p = (d, p)"
| "deal_n (Suc n) d p = (case dealCard d p of (out, d', p') \<Rightarrow> deal_n n d' p')"

text \<open>The cards a hand holds, in dealing order, and the card at a deck position.\<close>

definition hand_cards :: "hand \<Rightarrow> (int \<times> char) list" where
  "hand_cards p = take (nat (handsize p)) (zip (rank p) (suit p))"

definition deck_card :: "deck \<Rightarrow> nat \<Rightarrow> int \<times> char" where
  "deck_card d i = (rankG d ! i, suitG d ! i)"

definition deck_cards :: "deck \<Rightarrow> (int \<times> char) list" where
  "deck_cards d = zip (rankG d) (suitG d)"


section \<open>The deck\<close>

text \<open>One pass of the \<^verbatim>\<open>for\<close> loop of \<^verbatim>\<open>initDeck\<close>, at index \<open>i\<close>.\<close>

definition initDeck_step :: "nat \<Rightarrow> deck \<Rightarrow> deck" where
  "initDeck_step i d =
     (let s = (if int i > 3 * MAXSUIT - 1 then CHR ''h''
               else if int i > 2 * MAXSUIT - 1 then CHR ''d''
               else if int i > MAXSUIT - 1 then CHR ''c''
               else CHR ''s'');
          d1 = d\<lparr>suitG := (suitG d)[i := s]\<rparr>
      in d1\<lparr>rankG := (rankG d1)[i := (int i mod MAXSUIT) + 1]\<rparr>)"

definition initDeck :: "deck \<Rightarrow> deck" where
  "initDeck d = fold initDeck_step [0..<nat SINGLEDECK] (d\<lparr>indexG := 0\<rparr>)"

text \<open>
  One pass of the loop of \<^verbatim>\<open>shuffleDeck\<close>. \<open>rnd i\<close> is the value \<^verbatim>\<open>rand()\<close> returns in
  pass \<open>i\<close> (never negative).
\<close>

definition shuffle_step :: "(nat \<Rightarrow> nat) \<Rightarrow> nat \<Rightarrow> deck \<Rightarrow> deck" where
  "shuffle_step rnd i d =
     (let j = rnd i mod nat SINGLEDECK;
          tempR = rankG d ! j;
          tempS = suitG d ! j;
          d1 = d\<lparr>rankG := (rankG d)[j := rankG d ! i]\<rparr>;
          d2 = d1\<lparr>suitG := (suitG d1)[j := suitG d1 ! i]\<rparr>;
          d3 = d2\<lparr>rankG := (rankG d2)[i := tempR]\<rparr>
      in d3\<lparr>suitG := (suitG d3)[i := tempS]\<rparr>)"

definition shuffleDeck :: "(nat \<Rightarrow> nat) \<Rightarrow> deck \<Rightarrow> deck" where
  "shuffleDeck rnd d = fold (shuffle_step rnd) [0..<nat SINGLEDECK] (d\<lparr>indexG := 0\<rparr>)"


section \<open>The gesture classifier\<close>

text \<open>
  A distance is a C \<^verbatim>\<open>double\<close> computed as a timer count divided by a constant, so it is
  always a finite number; the zone bounds 8, 30, 35 and 57 are exact in binary floating
  point. Comparing a sample with them is therefore comparing real numbers.

  \<^verbatim>\<open>USS_distance()\<close> is the sensor: the model reads the samples it delivers from a list,
  and a function that needs a sample when the list is empty returns \<open>None\<close> (the C code
  waits for the sensor there).
\<close>

text \<open>The two tests of the loop of \<^verbatim>\<open>USS_move\<close>.\<close>

definition hit_zone :: "real \<Rightarrow> bool" where
  "hit_zone distance = (distance > DIST_HIT \<and> distance < (DIST_HIT + WIDTH))"

definition stay_zone :: "real \<Rightarrow> bool" where
  "stay_zone distance = (distance > DIST_STAY \<and> distance < (DIST_STAY + WIDTH))"

text \<open>
  The \<^verbatim>\<open>while(1)\<close> loop of \<^verbatim>\<open>USS_move\<close>, on the one \<open>distance\<close> read before it. The last
  argument counts the passes of the loop; the C code has no such variable, it is there
  to state how many classifications a call makes.
\<close>

function USS_move_loop :: "real \<Rightarrow> int \<Rightarrow> int \<Rightarrow> int \<Rightarrow> nat \<Rightarrow> int \<times> nat" where
  "USS_move_loop distance countS countH countN k =
     (if hit_zone distance then
        (if countH + 1 > THRESHOLD then (HIT, Suc k)
         else USS_move_loop distance 0 (countH + 1) 0 (Suc k))
      else if stay_zone distance then
        (if countS + 1 > THRESHOLD then (STAY, Suc k)
         else USS_move_loop distance (countS + 1) 0 0 (Suc k))
      else
        (if countN + 1 > THRESHOLD then (NOACTION, Suc k)
         else USS_move_loop distance 0 0 (countN + 1) (Suc k)))"
  by pat_completeness auto
termination
  by (relation "measure (\<lambda>(distance, countS, countH, countN, k).
        nat (THRESHOLD + 1 -
          (if hit_zone distance then countH
           else if stay_zone distance then countS
           else countN)))") auto

declare USS_move_loop.simps [simp del]

text \<open>\<^verbatim>\<open>int USS_move()\<close>: one sample is read, then the loop runs on it.\<close>

definition USS_move :: "real list \<Rightarrow> (int \<times> real list) option" where
  "USS_move samples =
     (case samples of [] \<Rightarrow> None
      | distance # rest \<Rightarrow> Some (fst (USS_move_loop distance 0 0 0 0), rest))"

lemma USS_move_shorter: "USS_move samples = Some (m, rest) \<Longrightarrow> length rest < length samples"
  by (auto simp: USS_move_def split: list.splits)

text \<open>The first loop of \<^verbatim>\<open>userInput\<close>: \<^verbatim>\<open>while (USS_move() != NOACTION);\<close>\<close>

function wait_clear :: "real list \<Rightarrow> real list option" where
  "wait_clear samples =
     (case USS_move samples of None \<Rightarrow> None
      | Some (m, rest) \<Rightarrow> if m \<noteq> NOACTION then wait_clear rest else Some rest)"
  by pat_completeness auto
termination
  by (relation "measure length") (auto simp: USS_move_shorter)

declare wait_clear.simps [simp del]

text \<open>The second loop of \<^verbatim>\<open>userInput\<close>: the \<^verbatim>\<open>switch\<close> inside \<^verbatim>\<open>while (1)\<close>.\<close>

function wait_commit :: "real list \<Rightarrow> (int \<times> real list) option" where
  "wait_commit samples =
     (case USS_move samples of None \<Rightarrow> None
      | Some (m, rest) \<Rightarrow>
          if m = STAY then Some (STAY, rest)
          else if m = HIT then Some (HIT, rest)
          else wait_commit rest)"
  by pat_completeness auto
termination
  by (relation "measure length") (auto simp: USS_move_shorter)

declare wait_commit.simps [simp del]

definition userInput :: "real list \<Rightarrow> (int \<times> real list) option" where
  "userInput samples =
     (case wait_clear samples of None \<Rightarrow> None | Some rest \<Rightarrow> wait_commit rest)"

text \<open>What one call of \<^verbatim>\<open>USS_move\<close> returns when the sensor delivers \<open>distance\<close>.\<close>

definition reported :: "real \<Rightarrow> int" where
  "reported distance = fst (USS_move_loop distance 0 0 0 0)"


section \<open>Splitting a hand\<close>

text \<open>
  \<^verbatim>\<open>void split(int ID)\<close> works on the two hands \<^verbatim>\<open>selectPlayer\<close> finds for the player,
  \<open>pA\<close> and \<open>pB\<close>, and on the global deck. What it sends to the terminal is left out.
  \<open>split_move\<close> is its body up to the two calls of \<^verbatim>\<open>dealCard\<close>.
\<close>

definition split_move :: "hand \<Rightarrow> hand \<Rightarrow> hand \<times> hand" where
  "split_move pA pB =
     (let cardR = rank pA ! 1;
          cardS = suit pA ! 1;
          pB1 = pB\<lparr>rank := (rank pB)[0 := cardR]\<rparr>;
          pB2 = pB1\<lparr>suit := (suit pB1)[0 := cardS]\<rparr>;
          pB3 = pB2\<lparr>handsize := handsize pB2 + 1\<rparr>;
          pB4 = pB3\<lparr>handvalue := handvalue pB3 + cardR\<rparr>;
          pA1 = pA\<lparr>handsize := handsize pA - 1\<rparr>;
          pA2 = pA1\<lparr>handvalue := handvalue pA1 - cardR\<rparr>
      in if cardR = 1
         then (pA2\<lparr>soft := 1, handvalue := 11\<rparr>, pB4\<lparr>soft := 1, handvalue := 11\<rparr>)
         else (pA2, pB4))"

definition split :: "deck \<Rightarrow> hand \<Rightarrow> hand \<Rightarrow> deck \<times> hand \<times> hand" where
  "split d pA pB =
     (case split_move pA pB of (pA1, pB1) \<Rightarrow>
        case dealCard d pA1 of (outA, d1, pA2) \<Rightarrow>
          case dealCard d1 pB1 of (outB, d2, pB2) \<Rightarrow> (d2, pA2, pB2))"


section \<open>A player's turn\<close>

text \<open>
  \<^verbatim>\<open>void playTurn(int ID)\<close>: \<open>playTurnA\<close> is the first \<^verbatim>\<open>while (1)\<close> loop (the primary
  hand), with the local \<^verbatim>\<open>askSplit\<close> as an argument; \<open>playTurnB\<close> is the second loop (the
  secondary hand). The player's gestures are the sensor samples; \<open>None\<close> is a turn that
  still waits for a gesture when the samples end. The screens are left out. Every call
  of \<^verbatim>\<open>userInput\<close> that returns has read samples, which is why the loops end.
\<close>

lemma wait_clear_shorter:
  "wait_clear samples = Some rest \<Longrightarrow> length rest < length samples"
proof (induction samples rule: wait_clear.induct)
  case (1 samples)
  note run = "1.prems"[unfolded wait_clear.simps[of samples]]
  then obtain m r where u: "USS_move samples = Some (m, r)"
    by (auto split: option.splits)
  show ?case
  proof (cases "m \<noteq> NOACTION")
    case True
    with run u have "wait_clear r = Some rest" by simp
    from "1.IH"[OF u refl True this] USS_move_shorter[OF u] show ?thesis by simp
  next
    case False
    with run u have "rest = r" by simp
    with USS_move_shorter[OF u] show ?thesis by simp
  qed
qed

lemma wait_commit_shorter:
  "wait_commit samples = Some (m, rest) \<Longrightarrow> length rest < length samples"
proof (induction samples rule: wait_commit.induct)
  case (1 samples)
  note run = "1.prems"[unfolded wait_commit.simps[of samples]]
  then obtain k r where u: "USS_move samples = Some (k, r)"
    by (auto split: option.splits)
  show ?case
  proof (cases "k = STAY \<or> k = HIT")
    case True
    with run u have "rest = r" by (auto split: if_splits)
    with USS_move_shorter[OF u] show ?thesis by simp
  next
    case False
    with run u have "wait_commit r = Some (m, rest)" by simp
    from False "1.IH"[OF u refl _ _ this] USS_move_shorter[OF u] show ?thesis by simp
  qed
qed

lemma userInput_shorter:
  "userInput samples = Some (m, rest) \<Longrightarrow> length rest < length samples"
proof -
  assume "userInput samples = Some (m, rest)"
  then obtain r where "wait_clear samples = Some r" "wait_commit r = Some (m, rest)"
    by (auto simp: userInput_def split: option.splits)
  from wait_clear_shorter[OF this(1)] wait_commit_shorter[OF this(2)] show ?thesis by simp
qed

function playTurnA ::
  "int \<Rightarrow> deck \<Rightarrow> hand \<Rightarrow> hand \<Rightarrow> real list \<Rightarrow> (deck \<times> hand \<times> hand \<times> real list) option" where
  "playTurnA askSplit d pA pB samples =
     (if rank pA ! 0 = rank pA ! 1 \<and> askSplit \<noteq> 0 then
        (case userInput samples of
           None \<Rightarrow> None
         | Some (answer, rest) \<Rightarrow>
             if answer = HIT
             then (case split d pA pB of (d1, pA1, pB1) \<Rightarrow> playTurnA 0 d1 pA1 pB1 rest)
             else playTurnA 0 d pA pB rest)
      else if busted pA \<noteq> 0 then Some (d, pA, pB, samples)
      else if handvalue pA = 21 then Some (d, pA, pB, samples)
      else
        (case userInput samples of
           None \<Rightarrow> None
         | Some (choice, rest) \<Rightarrow>
             if choice = HIT
             then (case dealCard d pA of (out, d1, pA1) \<Rightarrow> playTurnA askSplit d1 pA1 pB rest)
             else if choice = STAY then Some (d, pA, pB, rest)
             else Some (d, pA, pB, rest)))"
  by pat_completeness auto
termination
  by (relation "measure (\<lambda>(askSplit, d, pA, pB, samples). length samples)")
     (auto simp: userInput_shorter)

declare playTurnA.simps [simp del]

function playTurnB ::
  "deck \<Rightarrow> hand \<Rightarrow> real list \<Rightarrow> (deck \<times> hand \<times> real list) option" where
  "playTurnB d pB samples =
     (if busted pB \<noteq> 0 then Some (d, pB, samples)
      else if handvalue pB = 21 then Some (d, pB, samples)
      else
        (case userInput samples of
           None \<Rightarrow> None
         | Some (choice, rest) \<Rightarrow>
             if choice = HIT
             then (case dealCard d pB of (out, d1, pB1) \<Rightarrow> playTurnB d1 pB1 rest)
             else if choice = STAY then Some (d, pB, rest)
             else Some (d, pB, rest)))"
  by pat_completeness auto
termination
  by (relation "measure (\<lambda>(d, pB, samples). length samples)")
     (auto simp: userInput_shorter)

declare playTurnB.simps [simp del]

definition playTurn ::
  "deck \<Rightarrow> hand \<Rightarrow> hand \<Rightarrow> real list \<Rightarrow> (deck \<times> hand \<times> hand \<times> real list) option" where
  "playTurn d pA pB samples =
     (case playTurnA 1 d pA pB samples of
        None \<Rightarrow> None
      | Some (d1, pA1, pB1, rest) \<Rightarrow>
          if empty pB1 \<noteq> 0 then Some (d1, pA1, pB1, rest)
          else (case playTurnB d1 pB1 rest of
                  None \<Rightarrow> None
                | Some (d2, pB2, rest2) \<Rightarrow> Some (d2, pA1, pB2, rest2)))"


section \<open>The dealer's turn and the results\<close>

text \<open>
  The \<^verbatim>\<open>while (1)\<close> loop of \<^verbatim>\<open>main\<close> for the dealer. When \<^verbatim>\<open>dealCard\<close> cannot deal, the
  loop repeats unchanged for ever: such a run has the value \<open>None\<close>.
\<close>

partial_function (option) dealerTurn :: "deck \<Rightarrow> hand \<Rightarrow> (deck \<times> hand) option" where
  "dealerTurn d dealer =
     (if busted dealer \<noteq> 0 then Some (d, dealer)
      else if handvalue dealer < 17 \<or> (handvalue dealer = 17 \<and> soft dealer \<noteq> 0)
      then (case dealCard d dealer of (out, d1, dealer1) \<Rightarrow> dealerTurn d1 dealer1)
      else Some (d, dealer))"

text \<open>
  The \<^verbatim>\<open>if\<close> chain of \<^verbatim>\<open>dispResults\<close>, the same for a primary and a secondary hand: the text
  sent for hand \<open>p\<close> against the dealer's hand.
\<close>

definition dispResults_hand :: "hand \<Rightarrow> hand \<Rightarrow> string" where
  "dispResults_hand p dealer =
     (if busted p \<noteq> 0 then '' LOST with ''
      else if handvalue p = handvalue dealer then '' PUSHED with ''
      else if handvalue p < handvalue dealer \<and> \<not> busted dealer \<noteq> 0 then '' LOST with ''
      else if handvalue p > handvalue dealer \<or> busted dealer \<noteq> 0 then '' WON with ''
      else ''ERROR in dispResults()'')"


section \<open>Notions used in the properties\<close>

text \<open>The standard cards, and the deck order that \<^verbatim>\<open>initDeck\<close> writes.\<close>

definition standard_cards :: "(int \<times> char) set" where
  "standard_cards = {1..13} \<times> {CHR ''s'', CHR ''c'', CHR ''d'', CHR ''h''}"

definition init_suit :: "nat \<Rightarrow> char" where
  "init_suit i = (if int i > 3 * MAXSUIT - 1 then CHR ''h''
               else if int i > 2 * MAXSUIT - 1 then CHR ''d''
               else if int i > MAXSUIT - 1 then CHR ''c''
               else CHR ''s'')"

definition init_rank :: "nat \<Rightarrow> int" where
  "init_rank i = (int i mod MAXSUIT) + 1"

text \<open>The zone of a sample, as the specification words it.\<close>

definition zone :: "real \<Rightarrow> int" where
  "zone distance =
     (if hit_zone distance then HIT
      else if stay_zone distance then STAY
      else NOACTION)"

text \<open>
  The dealer draws: the first branch of the dealer's loop (busted) is not taken and the
  condition of the second holds.
\<close>

definition dealer_hits :: "hand \<Rightarrow> bool" where
  "dealer_hits dealer =
     (busted dealer = 0 \<and> (handvalue dealer < 17 \<or> (handvalue dealer = 17 \<and> soft dealer \<noteq> 0)))"



text \<open>
  The two halves of the comment on \<^verbatim>\<open>busted\<close> (true = hand value over 21, false = hand
  value 21 or under), and a deck of 52 cells whose ranks are between 1 and 13.
\<close>

definition value_ok :: "hand \<Rightarrow> bool" where
  "value_ok p = (busted p = 0 \<longrightarrow> handvalue p \<le> 21)"

definition bust_ok :: "hand \<Rightarrow> bool" where
  "bust_ok p = (busted p \<noteq> 0 \<longrightarrow> 21 < handvalue p \<and> soft p \<le> 0)"

definition valid_deck :: "deck \<Rightarrow> bool" where
  "valid_deck d = (deck_wf d \<and> (\<forall>r\<in>set (rankG d). 1 \<le> r \<and> r \<le> 13))"

text \<open>
  \<open>no_ace_on_21 n d p\<close>: in \<open>n\<close> successive calls \<^verbatim>\<open>dealCard(&p)\<close>, no call deals an ace
  to a hand whose value is 21 at that moment.
\<close>

fun no_ace_on_21 :: "nat \<Rightarrow> deck \<Rightarrow> hand \<Rightarrow> bool" where
  "no_ace_on_21 0 d p = True"
| "no_ace_on_21 (Suc n) d p =
     (\<not> (handvalue p = 21 \<and> indexG d < SINGLEDECK \<and> handsize p < MAXHAND
          \<and> rankG d ! nat (indexG d) = 1)
      \<and> (case dealCard d p of (out, d', p') \<Rightarrow> no_ace_on_21 n d' p'))"


section \<open>Decks and hands used as examples\<close>

text \<open>
  A shuffled deck whose first four cards are the ten, five, six and ace of spades; the
  other cards follow in the order of \<^verbatim>\<open>initDeck\<close>.
\<close>

definition deck_10_5_6_A :: deck where
  "deck_10_5_6_A =
     \<lparr>rankG = [10, 5, 6, 1, 2, 3, 4, 7, 8, 9, 11, 12, 13,
               1, 2, 3, 4, 5, 6, 7, 8, 9, 10, 11, 12, 13,
               1, 2, 3, 4, 5, 6, 7, 8, 9, 10, 11, 12, 13,
               1, 2, 3, 4, 5, 6, 7, 8, 9, 10, 11, 12, 13],
      suitG = replicate 13 (CHR ''s'') @ replicate 13 (CHR ''c'')
            @ replicate 13 (CHR ''d'') @ replicate 13 (CHR ''h''),
      indexG = 0\<rparr>"

text \<open>A deck that starts with two kings, a five and an eight.\<close>

definition deck_K_K_5_8 :: deck where
  "deck_K_K_5_8 =
     \<lparr>rankG = [13, 13, 5, 8, 1, 2, 3, 4, 6, 7, 9, 10, 11, 12,
               1, 2, 3, 4, 5, 6, 7, 8, 9, 10, 11, 12,
               1, 2, 3, 4, 5, 6, 7, 8, 9, 10, 11, 12, 13,
               1, 2, 3, 4, 5, 6, 7, 8, 9, 10, 11, 12, 13],
      suitG = [CHR ''s'', CHR ''c'', CHR ''s'', CHR ''s''] @ replicate 10 (CHR ''s'')
            @ replicate 12 (CHR ''c'') @ replicate 13 (CHR ''d'') @ replicate 13 (CHR ''h''),
      indexG = 0\<rparr>"

text \<open>A deck that starts with an ace and a seven.\<close>

definition deck_A_7 :: deck where
  "deck_A_7 =
     \<lparr>rankG = [1, 7, 2, 3, 4, 5, 6, 8, 9, 10, 11, 12, 13,
               1, 2, 3, 4, 5, 6, 7, 8, 9, 10, 11, 12, 13,
               1, 2, 3, 4, 5, 6, 7, 8, 9, 10, 11, 12, 13,
               1, 2, 3, 4, 5, 6, 7, 8, 9, 10, 11, 12, 13],
      suitG = replicate 13 (CHR ''s'') @ replicate 13 (CHR ''c'')
            @ replicate 13 (CHR ''d'') @ replicate 13 (CHR ''h''),
      indexG = 0\<rparr>"

text \<open>Emptied hands that were dealt the first two cards of these decks, with the deck left.\<close>

definition two_kings :: "deck \<times> hand" where
  "two_kings = deal_n 2 deck_K_K_5_8 (emptyHand hand0)"

definition ten_five :: "deck \<times> hand" where
  "ten_five = deal_n 2 deck_10_5_6_A (emptyHand hand0)"


text \<open>The outcome of \<^verbatim>\<open>split\<close> on two of these hands, with an emptied secondary hand.\<close>

definition split_two_kings :: "deck \<times> hand \<times> hand" where
  "split_two_kings = split (fst two_kings) (snd two_kings) (emptyHand hand0)"

definition split_ten_five :: "deck \<times> hand \<times> hand" where
  "split_ten_five = split (fst ten_five) (snd ten_five) (emptyHand hand0)"

text \<open>
  A round for one player on one deck: the player is dealt ten, five, hits a six and
  stands on 21; the dealer is dealt nine, seven, hits an eight and busts with 24.
  \<open>deck_at i\<close> is that deck with the cursor at \<open>i\<close>.
\<close>

definition deck_play :: deck where
  "deck_play =
     \<lparr>rankG = [10, 5, 6, 9, 7, 8, 1, 2, 3, 4, 11, 12, 13,
               1, 2, 3, 4, 5, 6, 7, 8, 9, 10, 11, 12, 13,
               1, 2, 3, 4, 5, 6, 7, 8, 9, 10, 11, 12, 13,
               1, 2, 3, 4, 5, 6, 7, 8, 9, 10, 11, 12, 13],
      suitG = replicate 13 (CHR ''s'') @ replicate 13 (CHR ''c'')
            @ replicate 13 (CHR ''d'') @ replicate 13 (CHR ''h''),
      indexG = 0\<rparr>"

definition deck_at :: "int \<Rightarrow> deck" where
  "deck_at i = deck_play\<lparr>indexG := i\<rparr>"

definition player_1 :: hand where "player_1 = snd (snd (dealCard (deck_at 0) (emptyHand hand0)))"

definition player_2 :: hand where "player_2 = snd (snd (dealCard (deck_at 1) player_1))"

definition player_3 :: hand where "player_3 = snd (snd (dealCard (deck_at 2) player_2))"

definition dealer_1 :: hand where "dealer_1 = snd (snd (dealCard (deck_at 3) (emptyHand hand0)))"

definition dealer_2 :: hand where "dealer_2 = snd (snd (dealCard (deck_at 4) dealer_1))"

definition dealer_3 :: hand where "dealer_3 = snd (snd (dealCard (deck_at 5) dealer_2))"


section \<open>Properties of dealCard\<close>

lemma cannot_deal_msg_nonempty: "cannot_deal_msg \<noteq> []"
  by (simp add: cannot_deal_msg_def)

lemma take_zip_update_snoc:
  assumes "length rs = n" "length ss = n" "k < n"
  shows "take (Suc k) (zip (rs[k := r]) (ss[k := s])) = take k (zip rs ss) @ [(r, s)]"
proof -
  have "zip (rs[k := r]) (ss[k := s]) = (zip rs ss)[k := (r, s)]"
    by (simp add: update_zip)
  moreover have "k < length (zip rs ss)" using assms by simp
  ultimately show ?thesis
    by (simp add: take_Suc_conv_app_nth)
qed

lemma dealCard_success:
  assumes "\<not> (indexG d \<ge> SINGLEDECK \<or> handsize p \<ge> MAXHAND)"
  shows "dealCard d p = ([], d\<lparr>indexG := indexG d + 1\<rparr>,
     (settle_bust (score_card (rankG d ! nat (indexG d))
        (p\<lparr>rank := (rank p)[nat (handsize p) := rankG d ! nat (indexG d)],
           suit := (suit p)[nat (handsize p) := suitG d ! nat (indexG d)],
           handsize := handsize p + 1\<rparr>)))\<lparr>empty := 0\<rparr>)"
  using assms by (simp add: dealCard_def Let_def)

lemma score_card_fields [simp]:
  "rank (score_card r p) = rank p" "suit (score_card r p) = suit p"
  "isFaceDown (score_card r p) = isFaceDown p" "handsize (score_card r p) = handsize p"
  "busted (score_card r p) = busted p" "empty (score_card r p) = empty p"
  by (simp_all add: score_card_def)

lemma settle_bust_fields [simp]:
  "rank (settle_bust p) = rank p" "suit (settle_bust p) = suit p"
  "isFaceDown (settle_bust p) = isFaceDown p" "handsize (settle_bust p) = handsize p"
  "empty (settle_bust p) = empty p"
  by (simp_all add: settle_bust_def)

text \<open>
  Claim C8. \<^verbatim>\<open>dealCard\<close> fails exactly when the deck cursor has reached 52 or the hand
  already holds 12 cards. When it fails it sends the diagnostic and leaves the deck and
  every field of the hand as they were. When it succeeds it sends nothing, appends the
  card under the cursor to the hand's cards, advances the cursor by one and clears
  \<^verbatim>\<open>empty\<close>; the deck arrays and the face-down flags stay as they were.
\<close>

theorem dealCard_fails_or_appends:
  assumes "hand_wf p"
  shows "cannot_deal_msg \<noteq> [] \<and>
    (if indexG d \<ge> SINGLEDECK \<or> handsize p \<ge> MAXHAND
     then dealCard d p = (cannot_deal_msg, d, p)
     else (\<exists>d' p'. dealCard d p = ([], d', p')
            \<and> hand_cards p' = hand_cards p @ [deck_card d (nat (indexG d))]
            \<and> handsize p' = handsize p + 1
            \<and> indexG d' = indexG d + 1 \<and> rankG d' = rankG d \<and> suitG d' = suitG d
            \<and> empty p' = 0 \<and> isFaceDown p' = isFaceDown p))"
proof (cases "indexG d \<ge> SINGLEDECK \<or> handsize p \<ge> MAXHAND")
  case True
  then show ?thesis by (simp add: dealCard_def cannot_deal_msg_nonempty)
next
  case False
  have k: "nat (handsize p) < nat MAXHAND"
    using False assms by (auto simp: hand_wf_def MAXHAND_def)
  have l: "length (rank p) = nat MAXHAND" "length (suit p) = nat MAXHAND"
    using assms by (auto simp: hand_wf_def)
  have n: "nat (handsize p + 1) = Suc (nat (handsize p))"
    using assms by (auto simp: hand_wf_def nat_add_distrib)
  have c: "take (nat (handsize p + 1))
      (zip ((rank p)[nat (handsize p) := rankG d ! nat (indexG d)])
           ((suit p)[nat (handsize p) := suitG d ! nat (indexG d)]))
     = take (nat (handsize p)) (zip (rank p) (suit p)) @ [deck_card d (nat (indexG d))]"
    unfolding n deck_card_def by (rule take_zip_update_snoc[OF l k])
  show ?thesis
    using False by (simp add: dealCard_success[OF False] cannot_deal_msg_nonempty hand_cards_def c)
qed

lemma hand_wf_emptyHand: "hand_wf (emptyHand p)"
  by (simp add: hand_wf_def emptyHand_def MAXHAND_def)

theorem dealCard_fails_or_appends_witness:
  "hand_wf (emptyHand hand0) \<and>
   (\<exists>d' p'. dealCard deck_10_5_6_A (emptyHand hand0) = ([], d', p')
       \<and> hand_cards p' = [(10, CHR ''s'')] \<and> handsize p' = 1 \<and> indexG d' = 1
       \<and> empty p' = 0)"
proof -
  have ne: "\<not> (indexG deck_10_5_6_A \<ge> SINGLEDECK \<or> handsize (emptyHand hand0) \<ge> MAXHAND)"
    by (simp add: deck_10_5_6_A_def emptyHand_def SINGLEDECK_def MAXHAND_def)
  have hc: "hand_cards (emptyHand hand0) = []" "handsize (emptyHand hand0) = 0"
    by (simp_all add: hand_cards_def emptyHand_def)
  have dc: "deck_card deck_10_5_6_A 0 = (10, CHR ''s'')" "indexG deck_10_5_6_A = 0"
    by (simp_all add: deck_card_def deck_10_5_6_A_def nth_append)
  from dealCard_fails_or_appends[OF hand_wf_emptyHand, of deck_10_5_6_A hand0] ne
  obtain d' p' where "dealCard deck_10_5_6_A (emptyHand hand0) = ([], d', p')"
    "hand_cards p' = hand_cards (emptyHand hand0) @ [deck_card deck_10_5_6_A (nat (indexG deck_10_5_6_A))]"
    "handsize p' = handsize (emptyHand hand0) + 1" "indexG d' = indexG deck_10_5_6_A + 1"
    "empty p' = 0"
    by (simp only: if_False) blast
  then show ?thesis using hand_wf_emptyHand by (simp add: hc dc)
qed

text \<open>
  Claim C1 as stated (after every sequence of cards dealt to an empty hand, \<^verbatim>\<open>busted\<close> is
  set exactly when \<^verbatim>\<open>handvalue\<close> exceeds 21) does not hold: \<^verbatim>\<open>dealCard\<close> tests the value once
  per call, so an ace dealt to a hand worth 21 adds 11, is at once counted as 1, and
  leaves the hand at 22 with \<^verbatim>\<open>busted\<close> clear. Dealing the ten, five, six and ace to an
  empty hand shows it.
\<close>

theorem dealCard_ace_on_21_not_busted:
  "map fst (hand_cards (snd (deal_n 4 deck_10_5_6_A (emptyHand hand0)))) = [10, 5, 6, 1]
   \<and> handvalue (snd (deal_n 4 deck_10_5_6_A (emptyHand hand0))) = 22
   \<and> busted (snd (deal_n 4 deck_10_5_6_A (emptyHand hand0))) = 0
   \<and> soft (snd (deal_n 4 deck_10_5_6_A (emptyHand hand0))) = 0"
  by (simp add: eval_nat_numeral dealCard_def deck_10_5_6_A_def emptyHand_def hand0_def
      score_card_def settle_bust_def Let_def SINGLEDECK_def MAXHAND_def hand_cards_def)

section \<open>Properties of the deck\<close>

lemma drop_update_head: "n < length xs \<Longrightarrow> (drop n xs)[0 := v] = v # drop (Suc n) xs"
  by (metis Cons_nth_drop_Suc list_update_code(2))

lemma fold_initDeck_step:
  "n \<le> length (rankG d) \<Longrightarrow> n \<le> length (suitG d) \<Longrightarrow>
   fold initDeck_step [0..<n] d =
     d\<lparr>rankG := map init_rank [0..<n] @ drop n (rankG d),
       suitG := map init_suit [0..<n] @ drop n (suitG d)\<rparr>"
proof (induction n)
  case 0
  then show ?case by simp
next
  case (Suc n)
  then have lt: "n < length (rankG d)" "n < length (suitG d)" by simp_all
  have IH: "fold initDeck_step [0..<n] d =
     d\<lparr>rankG := map init_rank [0..<n] @ drop n (rankG d),
       suitG := map init_suit [0..<n] @ drop n (suitG d)\<rparr>"
    using Suc by simp
  have "fold initDeck_step [0..<Suc n] d = initDeck_step n (fold initDeck_step [0..<n] d)"
    by simp
  also have "\<dots> = initDeck_step n (d\<lparr>rankG := map init_rank [0..<n] @ drop n (rankG d),
       suitG := map init_suit [0..<n] @ drop n (suitG d)\<rparr>)"
    by (simp only: IH)
  also have "\<dots> = d\<lparr>rankG := map init_rank [0..<Suc n] @ drop (Suc n) (rankG d),
       suitG := map init_suit [0..<Suc n] @ drop (Suc n) (suitG d)\<rparr>"
    by (simp add: initDeck_step_def Let_def list_update_append drop_update_head lt
        init_rank_def init_suit_def)
  finally show ?case .
qed

lemma initDeck_eq:
  assumes "length (rankG d) = nat SINGLEDECK" "length (suitG d) = nat SINGLEDECK"
  shows "initDeck d = \<lparr>rankG = map init_rank [0..<nat SINGLEDECK],
                       suitG = map init_suit [0..<nat SINGLEDECK], indexG = 0\<rparr>"
  using assms by (simp add: initDeck_def fold_initDeck_step)

lemma init_cards_eq:
  "zip (map init_rank [0..<52]) (map init_suit [0..<52]) =
     map (\<lambda>r. (r, CHR ''s'')) [1,2,3,4,5,6,7,8,9,10,11,12,13]
   @ map (\<lambda>r. (r, CHR ''c'')) [1,2,3,4,5,6,7,8,9,10,11,12,13]
   @ map (\<lambda>r. (r, CHR ''d'')) [1,2,3,4,5,6,7,8,9,10,11,12,13]
   @ map (\<lambda>r. (r, CHR ''h'')) [1,2,3,4,5,6,7,8,9,10,11,12,13]"
  by code_simp

lemma standard_cards_list:
  "standard_cards = set (map (\<lambda>r. (r, CHR ''s'')) [1,2,3,4,5,6,7,8,9,10,11,12,13]
   @ map (\<lambda>r. (r, CHR ''c'')) [1,2,3,4,5,6,7,8,9,10,11,12,13]
   @ map (\<lambda>r. (r, CHR ''d'')) [1,2,3,4,5,6,7,8,9,10,11,12,13]
   @ map (\<lambda>r. (r, CHR ''h'')) [1,2,3,4,5,6,7,8,9,10,11,12,13])"
proof -
  have "{1..13::int} = {1,2,3,4,5,6,7,8,9,10,11,12,13}" by (auto, arith)
  then show ?thesis unfolding standard_cards_def by auto
qed

lemma init_cards_distinct:
  "distinct (map (\<lambda>r. (r, CHR ''s'')) [1,2,3,4,5,6,7,8,9,10,11,12,13::int]
   @ map (\<lambda>r. (r, CHR ''c'')) [1,2,3,4,5,6,7,8,9,10,11,12,13]
   @ map (\<lambda>r. (r, CHR ''d'')) [1,2,3,4,5,6,7,8,9,10,11,12,13]
   @ map (\<lambda>r. (r, CHR ''h'')) [1,2,3,4,5,6,7,8,9,10,11,12,13])"
  by simp

lemma shuffle_step_cards:
  assumes "length (rankG d) = n" "length (suitG d) = n" "i < n" "0 < n" "nat SINGLEDECK = n"
  shows "length (rankG (shuffle_step rnd i d)) = n"
    and "length (suitG (shuffle_step rnd i d)) = n"
    and "indexG (shuffle_step rnd i d) = indexG d"
    and "mset (deck_cards (shuffle_step rnd i d)) = mset (deck_cards d)"
proof -
  let ?j = "rnd i mod n"
  have j: "?j < n" using assms by simp
  let ?c = "deck_cards d"
  have len: "length ?c = n" using assms by (simp add: deck_cards_def)
  have "deck_cards (shuffle_step rnd i d) = ?c[?j := ?c ! i, i := ?c ! ?j]"
    using assms j by (simp add: shuffle_step_def Let_def deck_cards_def update_zip)
  then show "mset (deck_cards (shuffle_step rnd i d)) = mset (deck_cards d)"
    using mset_swap[of i ?c ?j] len j assms by simp
  show "length (rankG (shuffle_step rnd i d)) = n" "length (suitG (shuffle_step rnd i d)) = n"
       "indexG (shuffle_step rnd i d) = indexG d"
    using assms by (simp_all add: shuffle_step_def Let_def)
qed

lemma fold_shuffle_step:
  assumes "\<forall>i\<in>set is. i < n" "length (rankG d) = n" "length (suitG d) = n" "0 < n"
    "nat SINGLEDECK = n"
  shows "length (rankG (fold (shuffle_step rnd) is d)) = n
       \<and> length (suitG (fold (shuffle_step rnd) is d)) = n
       \<and> indexG (fold (shuffle_step rnd) is d) = indexG d
       \<and> mset (deck_cards (fold (shuffle_step rnd) is d)) = mset (deck_cards d)"
  using assms
proof (induction "is" arbitrary: d)
  case Nil
  then show ?case by simp
next
  case (Cons i "is")
  have i: "i < n" using Cons.prems by simp
  note st = shuffle_step_cards[OF Cons.prems(2) Cons.prems(3) i Cons.prems(4) Cons.prems(5), of rnd]
  have "\<forall>i\<in>set is. i < n" using Cons.prems by simp
  from Cons.IH[OF this st(1) st(2) Cons.prems(4) Cons.prems(5)] st(3) st(4)
  show ?case by simp
qed

text \<open>
  Claim C7. For a deck of 52 cells: after \<^verbatim>\<open>initDeck\<close> the cursor is 0 and the deck holds
  each of the 52 pairs of a rank 1..13 and a suit exactly once; after \<^verbatim>\<open>shuffleDeck\<close>,
  whatever \<^verbatim>\<open>rand()\<close> returns, the cursor is 0 and the multiset of (rank, suit) pairs is
  the one before the shuffle (and the deck still has 52 cells).
\<close>

theorem deck_initialize_shuffle:
  assumes "length (rankG d) = nat SINGLEDECK" "length (suitG d) = nat SINGLEDECK"
  shows "indexG (initDeck d) = 0
       \<and> mset (deck_cards (initDeck d)) = mset_set standard_cards
       \<and> card standard_cards = 52
       \<and> indexG (shuffleDeck rnd d) = 0
       \<and> mset (deck_cards (shuffleDeck rnd d)) = mset (deck_cards d)
       \<and> length (rankG (shuffleDeck rnd d)) = nat SINGLEDECK
       \<and> length (suitG (shuffleDeck rnd d)) = nat SINGLEDECK"
proof -
  let ?L = "map (\<lambda>r. (r, CHR ''s'')) [1,2,3,4,5,6,7,8,9,10,11,12,13::int]
   @ map (\<lambda>r. (r, CHR ''c'')) [1,2,3,4,5,6,7,8,9,10,11,12,13]
   @ map (\<lambda>r. (r, CHR ''d'')) [1,2,3,4,5,6,7,8,9,10,11,12,13]
   @ map (\<lambda>r. (r, CHR ''h'')) [1,2,3,4,5,6,7,8,9,10,11,12,13]"
  have c: "deck_cards (initDeck d) = ?L"
    using init_cards_eq by (simp add: initDeck_eq[OF assms] deck_cards_def SINGLEDECK_def)
  have m: "mset ?L = mset_set standard_cards"
    unfolding standard_cards_list by (rule mset_set_set[symmetric, OF init_cards_distinct])
  have "card standard_cards = length ?L"
    unfolding standard_cards_list by (rule distinct_card[OF init_cards_distinct])
  then have k: "card standard_cards = 52" by simp
  have s: "\<forall>i\<in>set [0..<nat SINGLEDECK]. i < nat SINGLEDECK" by simp
  have n: "0 < nat SINGLEDECK" by (simp add: SINGLEDECK_def)
  have l: "length (rankG (d\<lparr>indexG := 0\<rparr>)) = nat SINGLEDECK"
          "length (suitG (d\<lparr>indexG := 0\<rparr>)) = nat SINGLEDECK"
    using assms by simp_all
  from fold_shuffle_step[OF s l n refl, of rnd]
  have sh: "indexG (shuffleDeck rnd d) = 0
       \<and> mset (deck_cards (shuffleDeck rnd d)) = mset (deck_cards d)
       \<and> length (rankG (shuffleDeck rnd d)) = nat SINGLEDECK
       \<and> length (suitG (shuffleDeck rnd d)) = nat SINGLEDECK"
    by (simp add: shuffleDeck_def deck_cards_def)
  show ?thesis using sh k m c by (simp add: initDeck_eq[OF assms])
qed

lemma deck0_lengths:
  "length (rankG deck0) = nat SINGLEDECK" "length (suitG deck0) = nat SINGLEDECK"
  by (simp_all add: deck0_def)

theorem deck_initialize_shuffle_witness:
  "length (rankG deck0) = nat SINGLEDECK \<and> length (suitG deck0) = nat SINGLEDECK
   \<and> indexG (initDeck deck0) = 0
   \<and> mset (deck_cards (initDeck deck0)) = mset_set standard_cards
   \<and> indexG (shuffleDeck (\<lambda>i. 7 * i + 3) deck0) = 0
   \<and> mset (deck_cards (shuffleDeck (\<lambda>i. 7 * i + 3) deck0)) = mset (deck_cards deck0)"
  using deck_initialize_shuffle[OF deck0_lengths, of "\<lambda>i. 7 * i + 3"] deck0_lengths
  by simp

lemma card_standard_cards: "card standard_cards = 52"
proof -
  have "card standard_cards = length (map (\<lambda>r. (r, CHR ''s'')) [1,2,3,4,5,6,7,8,9,10,11,12,13::int]
   @ map (\<lambda>r. (r, CHR ''c'')) [1,2,3,4,5,6,7,8,9,10,11,12,13]
   @ map (\<lambda>r. (r, CHR ''d'')) [1,2,3,4,5,6,7,8,9,10,11,12,13]
   @ map (\<lambda>r. (r, CHR ''h'')) [1,2,3,4,5,6,7,8,9,10,11,12,13])"
    unfolding standard_cards_list by (rule distinct_card[OF init_cards_distinct])
  then show ?thesis by simp
qed

text \<open>The decks used as examples hold the 52 standard cards, each once.\<close>

lemma suits_expand:
  "replicate 13 (c::char) = [c,c,c,c,c,c,c,c,c,c,c,c,c]"
  "replicate 12 (c::char) = [c,c,c,c,c,c,c,c,c,c,c,c]"
  "replicate 10 (c::char) = [c,c,c,c,c,c,c,c,c,c]"
  by (simp_all add: eval_nat_numeral)

lemma deck_standard:
  assumes "distinct (deck_cards d)" "set (deck_cards d) \<subseteq> standard_cards" "length (deck_cards d) = 52"
  shows "mset (deck_cards d) = mset_set standard_cards"
proof -
  have f: "finite standard_cards" by (simp add: standard_cards_def)
  have "card (set (deck_cards d)) = 52" using assms(1,3) by (simp add: distinct_card)
  moreover note card_standard_cards
  ultimately have "set (deck_cards d) = standard_cards"
    using assms(2) f by (simp add: card_subset_eq)
  with assms(1) show ?thesis using mset_set_set by metis
qed

lemma example_decks_standard:
  "mset (deck_cards deck_10_5_6_A) = mset_set standard_cards"
  "mset (deck_cards deck_K_K_5_8) = mset_set standard_cards"
  "mset (deck_cards deck_A_7) = mset_set standard_cards"
  "mset (deck_cards deck_play) = mset_set standard_cards"
  by (rule deck_standard; simp add: deck_cards_def deck_10_5_6_A_def deck_K_K_5_8_def deck_A_7_def
        deck_play_def suits_expand standard_cards_def)+

section \<open>Properties of the gesture classifier\<close>

lemma loop_hit:
  "hit_zone distance \<Longrightarrow> countH \<le> THRESHOLD \<Longrightarrow>
   USS_move_loop distance countS countH countN k = (HIT, k + nat (THRESHOLD + 1 - countH))"
proof (induction distance countS countH countN k rule: USS_move_loop.induct)
  case (1 distance countS countH countN k)
  show ?case
  proof (cases "countH + 1 > THRESHOLD")
    case True
    with 1(4,5) have "countH = THRESHOLD" by simp
    with 1(4) show ?thesis by (subst USS_move_loop.simps) simp
  next
    case False
    from 1(1)[OF 1(4) False 1(4)] False
    have "USS_move_loop distance 0 (countH + 1) 0 (Suc k)
          = (HIT, Suc k + nat (THRESHOLD + 1 - (countH + 1)))" by simp
    moreover have "Suc k + nat (THRESHOLD + 1 - (countH + 1)) = k + nat (THRESHOLD + 1 - countH)"
      using False by simp
    ultimately show ?thesis using 1(4) False by (subst USS_move_loop.simps) simp
  qed
qed

lemma loop_stay:
  "\<not> hit_zone distance \<Longrightarrow>
   stay_zone distance \<Longrightarrow> countS \<le> THRESHOLD \<Longrightarrow>
   USS_move_loop distance countS countH countN k = (STAY, k + nat (THRESHOLD + 1 - countS))"
proof (induction distance countS countH countN k rule: USS_move_loop.induct)
  case (1 distance countS countH countN k)
  show ?case
  proof (cases "countS + 1 > THRESHOLD")
    case True
    with 1(4-6) have "countS = THRESHOLD" by simp
    with 1(4,5) show ?thesis by (subst USS_move_loop.simps) simp
  next
    case False
    from 1(2)[OF 1(4) 1(5) False 1(4) 1(5)] False
    have "USS_move_loop distance (countS + 1) 0 0 (Suc k)
          = (STAY, Suc k + nat (THRESHOLD + 1 - (countS + 1)))" by simp
    moreover have "Suc k + nat (THRESHOLD + 1 - (countS + 1)) = k + nat (THRESHOLD + 1 - countS)"
      using False by simp
    ultimately show ?thesis using 1(4,5) False by (subst USS_move_loop.simps) simp
  qed
qed

lemma loop_none:
  "\<not> hit_zone distance \<Longrightarrow>
   \<not> stay_zone distance \<Longrightarrow> countN \<le> THRESHOLD \<Longrightarrow>
   USS_move_loop distance countS countH countN k = (NOACTION, k + nat (THRESHOLD + 1 - countN))"
proof (induction distance countS countH countN k rule: USS_move_loop.induct)
  case (1 distance countS countH countN k)
  show ?case
  proof (cases "countN + 1 > THRESHOLD")
    case True
    with 1(4-6) have "countN = THRESHOLD" by simp
    with 1(4,5) show ?thesis by (subst USS_move_loop.simps) simp
  next
    case False
    from 1(3)[OF 1(4) 1(5) False 1(4) 1(5)] False
    have "USS_move_loop distance 0 0 (countN + 1) (Suc k)
          = (NOACTION, Suc k + nat (THRESHOLD + 1 - (countN + 1)))" by simp
    moreover have "Suc k + nat (THRESHOLD + 1 - (countN + 1)) = k + nat (THRESHOLD + 1 - countN)"
      using False by simp
    ultimately show ?thesis using 1(4,5) False by (subst USS_move_loop.simps) simp
  qed
qed

lemma USS_move_loop_start:
  "USS_move_loop distance 0 0 0 0 = (zone distance, nat (THRESHOLD + 1))"
proof -
  have t: "(0::int) \<le> THRESHOLD" by (simp add: THRESHOLD_def)
  consider (h) "hit_zone distance"
    | (s) "\<not> hit_zone distance"
          "stay_zone distance"
    | (n) "\<not> hit_zone distance"
          "\<not> stay_zone distance"
    by blast
  then show ?thesis
  proof cases
    case h
    from loop_hit[OF h t, of 0 0 0] h show ?thesis by (simp add: zone_def)
  next
    case s
    from loop_stay[OF s t, of 0 0 0] s show ?thesis by (simp add: zone_def)
  next
    case n
    from loop_none[OF n t, of 0 0 0] n show ?thesis by (simp add: zone_def)
  qed
qed

lemma reported_zone: "reported distance = zone distance"
  by (simp add: reported_def USS_move_loop_start)

text \<open>
  Claim C10. A call of \<^verbatim>\<open>USS_move\<close> reads exactly one sample (with none to read it does
  not return). What it returns depends on that sample alone: \<^verbatim>\<open>HIT\<close> when the sample is
  strictly between \<^verbatim>\<open>DIST_HIT\<close> and \<^verbatim>\<open>DIST_HIT + WIDTH\<close>, \<^verbatim>\<open>STAY\<close> when it is strictly
  between \<^verbatim>\<open>DIST_STAY\<close> and \<^verbatim>\<open>DIST_STAY + WIDTH\<close>, \<^verbatim>\<open>NOACTION\<close> otherwise; and the loop
  returns after \<^verbatim>\<open>THRESHOLD + 1\<close> classifications of that sample.
\<close>

theorem USS_move_one_sample:
  "USS_move [] = None
   \<and> USS_move (distance # rest) =
       Some (if DIST_HIT < distance \<and> distance < DIST_HIT + WIDTH then HIT
             else if DIST_STAY < distance \<and> distance < DIST_STAY + WIDTH then STAY
             else NOACTION, rest)
   \<and> snd (USS_move_loop distance 0 0 0 0) = nat (THRESHOLD + 1)"
  by (simp add: USS_move_def USS_move_loop_start zone_def hit_zone_def stay_zone_def)

lemma USS_move_Cons: "USS_move (distance # rest) = Some (zone distance, rest)"
  by (simp add: USS_move_def USS_move_loop_start)

lemma USS_move_Nil: "USS_move [] = None"
  by (simp add: USS_move_def)

lemma zone_cases: "zone x = HIT \<or> zone x = STAY \<or> zone x = NOACTION"
  by (simp add: zone_def)

lemma codes_distinct: "HIT \<noteq> STAY" "HIT \<noteq> NOACTION" "STAY \<noteq> NOACTION"
  by (simp_all add: HIT_def STAY_def NOACTION_def)

lemma wait_clear_Nil: "wait_clear [] = None"
  by (subst wait_clear.simps) (simp add: USS_move_Nil)

lemma wait_clear_Cons:
  "wait_clear (x # xs) = (if zone x \<noteq> NOACTION then wait_clear xs else Some xs)"
  by (subst wait_clear.simps) (simp add: USS_move_Cons)

lemma wait_commit_Nil: "wait_commit [] = None"
  by (subst wait_commit.simps) (simp add: USS_move_Nil)

lemma wait_commit_Cons:
  "wait_commit (x # xs) = (if zone x \<noteq> NOACTION then Some (zone x, xs) else wait_commit xs)"
  using zone_cases[of x] codes_distinct
  by (subst wait_commit.simps) (auto simp add: USS_move_Cons)

lemma wait_clear_iff:
  "wait_clear samples = Some rest \<longleftrightarrow>
   (\<exists>pre d0. samples = pre @ d0 # rest \<and> (\<forall>x\<in>set pre. zone x \<noteq> NOACTION) \<and> zone d0 = NOACTION)"
proof (induction samples)
  case Nil
  then show ?case by (simp add: wait_clear_Nil)
next
  case (Cons x xs)
  show ?case
  proof (cases "zone x = NOACTION")
    case True
    have "(\<exists>pre d0. x # xs = pre @ d0 # rest \<and> (\<forall>x\<in>set pre. zone x \<noteq> NOACTION) \<and> zone d0 = NOACTION)
          \<longleftrightarrow> xs = rest"
    proof
      assume "\<exists>pre d0. x # xs = pre @ d0 # rest \<and> (\<forall>x\<in>set pre. zone x \<noteq> NOACTION) \<and> zone d0 = NOACTION"
      then obtain pre d0 where p: "x # xs = pre @ d0 # rest" "\<forall>x\<in>set pre. zone x \<noteq> NOACTION" by blast
      show "xs = rest"
      proof (cases pre)
        case Nil
        with p show ?thesis by simp
      next
        case (Cons a as)
        with p True show ?thesis by simp
      qed
    next
      assume "xs = rest"
      then have "x # xs = [] @ x # rest \<and> (\<forall>x\<in>set []. zone x \<noteq> NOACTION) \<and> zone x = NOACTION"
        using True by simp
      then show "\<exists>pre d0. x # xs = pre @ d0 # rest \<and> (\<forall>x\<in>set pre. zone x \<noteq> NOACTION) \<and> zone d0 = NOACTION"
        by blast
    qed
    with True show ?thesis by (auto simp: wait_clear_Cons)
  next
    case False
    have "(\<exists>pre d0. x # xs = pre @ d0 # rest \<and> (\<forall>x\<in>set pre. zone x \<noteq> NOACTION) \<and> zone d0 = NOACTION)
          \<longleftrightarrow> (\<exists>pre d0. xs = pre @ d0 # rest \<and> (\<forall>x\<in>set pre. zone x \<noteq> NOACTION) \<and> zone d0 = NOACTION)"
      (is "?L \<longleftrightarrow> ?R")
    proof
      assume ?L
      then obtain pre d0 where p: "x # xs = pre @ d0 # rest" "\<forall>x\<in>set pre. zone x \<noteq> NOACTION"
        "zone d0 = NOACTION" by blast
      show ?R
      proof (cases pre)
        case Nil
        with p False show ?thesis by simp
      next
        case (Cons a as)
        with p have "xs = as @ d0 # rest \<and> (\<forall>x\<in>set as. zone x \<noteq> NOACTION) \<and> zone d0 = NOACTION"
          by simp
        then show ?thesis by blast
      qed
    next
      assume ?R
      then obtain pre d0 where p: "xs = pre @ d0 # rest" "\<forall>x\<in>set pre. zone x \<noteq> NOACTION"
        "zone d0 = NOACTION" by blast
      then have "x # xs = (x # pre) @ d0 # rest \<and> (\<forall>x\<in>set (x # pre). zone x \<noteq> NOACTION) \<and> zone d0 = NOACTION"
        using False by simp
      then show ?L by blast
    qed
    with False Cons.IH show ?thesis by (simp add: wait_clear_Cons)
  qed
qed

lemma wait_commit_iff:
  "wait_commit samples = Some (a, rest) \<longleftrightarrow>
   (\<exists>mid d1. samples = mid @ d1 # rest \<and> (\<forall>x\<in>set mid. zone x = NOACTION)
       \<and> zone d1 = a \<and> a \<noteq> NOACTION)"
proof (induction samples)
  case Nil
  then show ?case by (simp add: wait_commit_Nil)
next
  case (Cons x xs)
  show ?case
  proof (cases "zone x = NOACTION")
    case False
    have "(\<exists>mid d1. x # xs = mid @ d1 # rest \<and> (\<forall>x\<in>set mid. zone x = NOACTION)
             \<and> zone d1 = a \<and> a \<noteq> NOACTION) \<longleftrightarrow> (zone x = a \<and> xs = rest)"
      (is "?L \<longleftrightarrow> ?R")
    proof
      assume ?L
      then obtain mid d1 where p: "x # xs = mid @ d1 # rest" "\<forall>x\<in>set mid. zone x = NOACTION"
        "zone d1 = a" by blast
      show ?R
      proof (cases mid)
        case Nil
        with p show ?thesis by simp
      next
        case (Cons m ms)
        with p False show ?thesis by simp
      qed
    next
      assume ?R
      then have "x # xs = [] @ x # rest \<and> (\<forall>x\<in>set []. zone x = NOACTION)
             \<and> zone x = a \<and> a \<noteq> NOACTION" using False by auto
      then show ?L by blast
    qed
    with False show ?thesis by (auto simp: wait_commit_Cons)
  next
    case True
    have "(\<exists>mid d1. x # xs = mid @ d1 # rest \<and> (\<forall>x\<in>set mid. zone x = NOACTION)
             \<and> zone d1 = a \<and> a \<noteq> NOACTION)
       \<longleftrightarrow> (\<exists>mid d1. xs = mid @ d1 # rest \<and> (\<forall>x\<in>set mid. zone x = NOACTION)
             \<and> zone d1 = a \<and> a \<noteq> NOACTION)"
      (is "?L \<longleftrightarrow> ?R")
    proof
      assume ?L
      then obtain mid d1 where p: "x # xs = mid @ d1 # rest" "\<forall>x\<in>set mid. zone x = NOACTION"
        "zone d1 = a" "a \<noteq> NOACTION" by blast
      show ?R
      proof (cases mid)
        case Nil
        with p True show ?thesis by simp
      next
        case (Cons m ms)
        with p have "xs = ms @ d1 # rest \<and> (\<forall>x\<in>set ms. zone x = NOACTION)
             \<and> zone d1 = a \<and> a \<noteq> NOACTION" by simp
        then show ?thesis by blast
      qed
    next
      assume ?R
      then obtain mid d1 where p: "xs = mid @ d1 # rest" "\<forall>x\<in>set mid. zone x = NOACTION"
        "zone d1 = a" "a \<noteq> NOACTION" by blast
      then have "x # xs = (x # mid) @ d1 # rest \<and> (\<forall>x\<in>set (x # mid). zone x = NOACTION)
             \<and> zone d1 = a \<and> a \<noteq> NOACTION" using True by simp
      then show ?L by blast
    qed
    with True Cons.IH show ?thesis by (simp add: wait_commit_Cons)
  qed
qed

lemma userInput_zone_iff:
  "userInput samples = Some (a, rest) \<longleftrightarrow>
     (a = HIT \<or> a = STAY) \<and>
     (\<exists>pre d0 mid d1. samples = pre @ d0 # mid @ d1 # rest
        \<and> (\<forall>x\<in>set pre. zone x \<noteq> NOACTION) \<and> zone d0 = NOACTION
        \<and> (\<forall>x\<in>set mid. zone x = NOACTION) \<and> zone d1 = a)"
  (is "?L \<longleftrightarrow> ?A \<and> ?R")
proof
  assume ?L
  then obtain r where r: "wait_clear samples = Some r" "wait_commit r = Some (a, rest)"
    by (auto simp: userInput_def split: option.splits)
  from r(1) obtain pre d0 where 1: "samples = pre @ d0 # r" "\<forall>x\<in>set pre. zone x \<noteq> NOACTION"
    "zone d0 = NOACTION" unfolding wait_clear_iff by blast
  from r(2) obtain mid d1 where 2: "r = mid @ d1 # rest" "\<forall>x\<in>set mid. zone x = NOACTION"
    "zone d1 = a" "a \<noteq> NOACTION" unfolding wait_commit_iff by blast
  from 2 zone_cases[of d1] have ?A by auto
  moreover from 1 2 have "samples = pre @ d0 # mid @ d1 # rest
        \<and> (\<forall>x\<in>set pre. zone x \<noteq> NOACTION) \<and> zone d0 = NOACTION
        \<and> (\<forall>x\<in>set mid. zone x = NOACTION) \<and> zone d1 = a" by simp
  then have ?R by blast
  ultimately show "?A \<and> ?R" by simp
next
  assume "?A \<and> ?R"
  then obtain pre d0 mid d1 where p: "samples = pre @ d0 # mid @ d1 # rest"
        "\<forall>x\<in>set pre. zone x \<noteq> NOACTION" "zone d0 = NOACTION"
        "\<forall>x\<in>set mid. zone x = NOACTION" "zone d1 = a" and a: "a = HIT \<or> a = STAY" by blast
  from a codes_distinct have n: "a \<noteq> NOACTION" by auto
  have "wait_clear samples = Some (mid @ d1 # rest)"
    unfolding wait_clear_iff using p(1-3) by blast
  moreover have "wait_commit (mid @ d1 # rest) = Some (a, rest)"
    unfolding wait_commit_iff using p(4,5) n by blast
  ultimately show ?L by (simp add: userInput_def)
qed

text \<open>
  Claim C9. \<^verbatim>\<open>userInput\<close> returns \<open>a\<close>, with the samples \<open>rest\<close> still unread, exactly
  when \<open>a\<close> is \<^verbatim>\<open>HIT\<close> or \<^verbatim>\<open>STAY\<close> and the samples it read are: any number of samples
  reported as an action, one sample reported as \<^verbatim>\<open>NOACTION\<close>, any number of further
  \<^verbatim>\<open>NOACTION\<close> samples, and last a sample reported as \<open>a\<close>. So a decision is returned only
  after a \<^verbatim>\<open>NOACTION\<close> report of the same call, and it is the report of the last sample.
\<close>

theorem userInput_handshake:
  "userInput samples = Some (a, rest) \<longleftrightarrow>
     (a = HIT \<or> a = STAY) \<and>
     (\<exists>pre d0 mid d1. samples = pre @ d0 # mid @ d1 # rest
        \<and> (\<forall>x\<in>set pre. reported x \<noteq> NOACTION) \<and> reported d0 = NOACTION
        \<and> (\<forall>x\<in>set mid. reported x = NOACTION) \<and> reported d1 = a)"
  unfolding reported_zone by (rule userInput_zone_iff)

lemma zone_vals: "zone 10 = HIT" "zone 40 = STAY" "zone 60 = NOACTION"
  by (simp_all add: zone_def hit_zone_def stay_zone_def DIST_HIT_def DIST_STAY_def WIDTH_def)

theorem userInput_handshake_witness:
  "userInput [10, 60, 60, 40, 10] = Some (STAY, [10])"
proof -
  have "[10, 60, 60, 40, 10] = [10] @ 60 # [60] @ 40 # [10::real]
        \<and> (\<forall>x\<in>set [10]. reported x \<noteq> NOACTION) \<and> reported 60 = NOACTION
        \<and> (\<forall>x\<in>set [60]. reported x = NOACTION) \<and> reported 40 = STAY"
    using codes_distinct by (simp add: zone_vals reported_zone)
  then have "\<exists>pre d0 mid d1. [10, 60, 60, 40, 10] = pre @ d0 # mid @ d1 # [10::real]
        \<and> (\<forall>x\<in>set pre. reported x \<noteq> NOACTION) \<and> reported d0 = NOACTION
        \<and> (\<forall>x\<in>set mid. reported x = NOACTION) \<and> reported d1 = STAY"
    by blast
  then show ?thesis
    using userInput_handshake[of "[10, 60, 60, 40, 10]" STAY "[10]"] by simp
qed

lemma userInput_clear_then_zone:
  "zone x = NOACTION \<Longrightarrow> zone y \<noteq> NOACTION \<Longrightarrow> userInput (x # y # rest) = Some (zone y, rest)"
  by (simp add: userInput_def wait_clear_Cons wait_commit_Cons)

text \<open>
  Claim C4 (a debounce over successive samples). In the code the sample is read once,
  before the loop, so the three counters count passes over one sample and a call of
  \<^verbatim>\<open>USS_move\<close> reports the zone of every single sample. A stream that alternates between
  no gesture (distance 60) and the HIT zone (distance 10) at every sample therefore
  commits \<^verbatim>\<open>HIT\<close> on its second sample; and of \<^verbatim>\<open>THRESHOLD + 1\<close> HIT samples after a
  clear one, \<^verbatim>\<open>userInput\<close> reads only the first.
\<close>

theorem userInput_alternating_commits:
  "userInput [60, 10, 60, 10, 60, 10] = Some (HIT, [60, 10, 60, 10])
   \<and> userInput (60 # replicate (nat (THRESHOLD + 1)) 10) = Some (HIT, replicate (nat THRESHOLD) 10)"
proof -
  have n: "nat (THRESHOLD + 1) = Suc (nat THRESHOLD)" by (simp add: THRESHOLD_def)
  have z: "zone 60 = NOACTION" "zone 10 \<noteq> NOACTION" using codes_distinct by (simp_all add: zone_vals)
  show ?thesis
    using userInput_clear_then_zone[OF z, of "[60, 10, 60, 10]"]
      userInput_clear_then_zone[OF z, of "replicate (nat THRESHOLD) 10"]
    by (simp add: n zone_vals)
qed

section \<open>Properties of split and of a turn\<close>

lemmas eval_defs = eval_nat_numeral dealCard_def emptyHand_def hand0_def
      score_card_def settle_bust_def Let_def SINGLEDECK_def MAXHAND_def hand_cards_def
      split_def split_move_def

lemma two_kings_eval:
  "hand_cards (snd two_kings) = [(13, CHR ''s''), (13, CHR ''c'')]
   \<and> handvalue (snd two_kings) = 20"
  by (simp add: two_kings_def deck_K_K_5_8_def eval_defs)

text \<open>
  Claim C5 (\<^verbatim>\<open>split\<close> moves the second card and transfers its scoring contribution, 10
  for the ranks 10 to 13). The code transfers the rank itself: \<^verbatim>\<open>handvalue -= cardR\<close> and
  \<^verbatim>\<open>handvalue += cardR\<close>. Splitting two kings (value 20) leaves the primary hand at 7 and
  the secondary at 13 before the new cards, where \<^verbatim>\<open>dealCard\<close> counts a king as 10; after
  a five and an eight are dealt the hands are worth 12 and 21 instead of 15 and 18.
\<close>

theorem split_kings_raw_rank:
  "hand_cards (snd two_kings) = [(13, CHR ''s''), (13, CHR ''c'')]
   \<and> handvalue (snd two_kings) = 20
   \<and> handvalue (fst (split_move (snd two_kings) (emptyHand hand0))) = 7
   \<and> handvalue (snd (split_move (snd two_kings) (emptyHand hand0))) = 13
   \<and> hand_cards (fst (snd split_two_kings)) = [(13, CHR ''s''), (5, CHR ''s'')]
   \<and> handvalue (fst (snd split_two_kings)) = 12
   \<and> hand_cards (snd (snd split_two_kings)) = [(13, CHR ''c''), (8, CHR ''s'')]
   \<and> handvalue (snd (snd split_two_kings)) = 21"
  by (simp add: split_two_kings_def two_kings_def deck_K_K_5_8_def eval_defs)

text \<open>
  Claim C6 as stated (\<^verbatim>\<open>split\<close> fails and changes nothing when the first two ranks
  differ) does not hold: \<^verbatim>\<open>split\<close> has no test and no failure. On the hand ten, five it
  moves the five to the secondary hand and deals a card to each hand.
\<close>

theorem split_unequal_ranks_changes_hands:
  "hand_cards (snd ten_five) = [(10, CHR ''s''), (5, CHR ''s'')]
   \<and> rank (snd ten_five) ! 0 \<noteq> rank (snd ten_five) ! 1
   \<and> hand_cards (fst (snd split_ten_five)) = [(10, CHR ''s''), (6, CHR ''s'')]
   \<and> hand_cards (snd (snd split_ten_five)) = [(5, CHR ''s''), (1, CHR ''s'')]
   \<and> split_ten_five \<noteq> (fst ten_five, snd ten_five, emptyHand hand0)"
proof -
  have e: "hand_cards (snd ten_five) = [(10, CHR ''s''), (5, CHR ''s'')]"
    "rank (snd ten_five) ! 0 \<noteq> rank (snd ten_five) ! 1"
    "hand_cards (fst (snd split_ten_five)) = [(10, CHR ''s''), (6, CHR ''s'')]"
    "hand_cards (snd (snd split_ten_five)) = [(5, CHR ''s''), (1, CHR ''s'')]"
    by (simp_all add: split_ten_five_def ten_five_def deck_10_5_6_A_def eval_defs)
  have "fst (snd split_ten_five) \<noteq> snd ten_five" using e(1,3) by auto
  then have "split_ten_five \<noteq> (fst ten_five, snd ten_five, emptyHand hand0)"
    by (metis fst_conv snd_conv)
  with e show ?thesis by simp
qed

lemma dealCard_keeps_first_two:
  assumes "2 \<le> handsize p" "dealCard d p = (out, d1, p1)"
  shows "rank p1 ! 0 = rank p ! 0 \<and> rank p1 ! 1 = rank p ! 1 \<and> 2 \<le> handsize p1"
proof (cases "indexG d \<ge> SINGLEDECK \<or> handsize p \<ge> MAXHAND")
  case True
  with assms show ?thesis by (simp add: dealCard_def)
next
  case False
  have "nat (handsize p) \<noteq> 0" "nat (handsize p) \<noteq> 1" using assms(1) by simp_all
  with assms show ?thesis
    by (auto simp add: dealCard_success[OF False])
qed

lemma playTurnA_split_offer:
  assumes "rank pA ! 0 = rank pA ! 1" "askSplit \<noteq> 0" "userInput samples = Some (answer, rest)"
  shows "playTurnA askSplit d pA pB samples =
     (if answer = HIT
      then (case split d pA pB of (d1, pA1, pB1) \<Rightarrow> playTurnA 0 d1 pA1 pB1 rest)
      else playTurnA 0 d pA pB rest)"
  using assms by (subst playTurnA.simps) simp

lemma playTurnA_no_split:
  assumes "askSplit = 0 \<or> (rank pA ! 0 \<noteq> rank pA ! 1 \<and> 2 \<le> handsize pA)"
    and "playTurnA askSplit d pA pB samples = Some (d', pA', pB', rest)"
  shows "pB' = pB \<and> (\<exists>n. deal_n n d pA = (d', pA'))"
  using assms
proof (induction askSplit d pA pB samples rule: playTurnA.induct)
  case (1 askSplit d pA pB samples)
  have ne: "\<not> (rank pA ! 0 = rank pA ! 1 \<and> askSplit \<noteq> 0)" using "1.prems"(1) by auto
  note run = "1.prems"(2)[unfolded playTurnA.simps[of askSplit d pA pB samples]]
  show ?case
  proof (cases "busted pA \<noteq> 0 \<or> handvalue pA = 21")
    case True
    with run ne have "d' = d \<and> pA' = pA \<and> pB' = pB" by (auto split: if_splits)
    then have "pB' = pB \<and> deal_n 0 d pA = (d', pA')" by simp
    then show ?thesis by blast
  next
    case False
    with run ne obtain choice rest0 where u: "userInput samples = Some (choice, rest0)"
      by (auto split: if_splits option.splits)
    show ?thesis
    proof (cases "choice = HIT")
      case hit: True
      obtain out d1 pA1 where dc: "dealCard d pA = (out, d1, pA1)" by (cases "dealCard d pA")
      from run ne False u hit dc
      have r: "playTurnA askSplit d1 pA1 pB rest0 = Some (d', pA', pB', rest)"
        by (simp split: if_splits)
      have g: "askSplit = 0 \<or> (rank pA1 ! 0 \<noteq> rank pA1 ! 1 \<and> 2 \<le> handsize pA1)"
        using "1.prems"(1) dealCard_keeps_first_two[OF _ dc] by auto
      have b: "\<not> busted pA \<noteq> 0" "handvalue pA \<noteq> 21" using False by auto
      from "1.IH"(3)[OF ne b u refl hit dc[symmetric] refl g r]
      obtain n where "pB' = pB" "deal_n n d1 pA1 = (d', pA')" by blast
      then have "pB' = pB \<and> deal_n (Suc n) d pA = (d', pA')" using dc by simp
      then show ?thesis by blast
    next
      case stay: False
      from run ne False u stay have "d' = d \<and> pA' = pA \<and> pB' = pB"
        by (auto split: if_splits)
      then have "pB' = pB \<and> deal_n 0 d pA = (d', pA')" by simp
      then show ?thesis by blast
    qed
  qed
qed

lemma ten_five_eval:
  "rank (snd ten_five) ! 0 = 10" "rank (snd ten_five) ! 1 = 5" "rank (snd ten_five) ! Suc 0 = 5" "handsize (snd ten_five) = 2"
  "handvalue (snd ten_five) = 15" "busted (snd ten_five) = 0" "indexG (fst ten_five) = 2"
  "rankG (fst ten_five) = rankG deck_10_5_6_A"
  by (simp_all add: ten_five_def deck_10_5_6_A_def eval_defs)

lemma userInput_60_10: "userInput (60 # 10 # rest) = Some (HIT, rest)"
  using userInput_clear_then_zone[of 60 10 rest] codes_distinct by (simp add: zone_vals)

lemma ten_five_hit:
  "\<exists>out d1 pA1. dealCard (fst ten_five) (snd ten_five) = (out, d1, pA1)
      \<and> handvalue pA1 = 21 \<and> busted pA1 = 0 \<and> rank pA1 ! 0 \<noteq> rank pA1 ! 1"
  by (simp add: ten_five_def deck_10_5_6_A_def eval_defs)

lemma ten_five_turn:
  "\<exists>d' pA'. playTurnA 1 (fst ten_five) (snd ten_five) (emptyHand hand0) [60, 10, 60, 40]
     = Some (d', pA', emptyHand hand0, [60, 40])"
proof -
  obtain out d1 pA1 where dc: "dealCard (fst ten_five) (snd ten_five) = (out, d1, pA1)"
     and v: "handvalue pA1 = 21" "busted pA1 = 0" "rank pA1 ! 0 \<noteq> rank pA1 ! 1"
    using ten_five_hit by blast
  have 2: "playTurnA 1 d1 pA1 (emptyHand hand0) [60, 40] = Some (d1, pA1, emptyHand hand0, [60, 40])"
    using v by (subst playTurnA.simps) simp
  have "playTurnA 1 (fst ten_five) (snd ten_five) (emptyHand hand0) [60, 10, 60, 40]
        = playTurnA 1 d1 pA1 (emptyHand hand0) [60, 40]"
    by (subst playTurnA.simps) (simp add: ten_five_eval userInput_60_10 dc)
  with 2 show ?thesis by simp
qed


lemma playTurnB_deals:
  "playTurnB d pB samples = Some (d', pB', rest) \<Longrightarrow> \<exists>m. deal_n m d pB = (d', pB')"
proof (induction d pB samples rule: playTurnB.induct)
  case (1 d pB samples)
  note run = "1.prems"[unfolded playTurnB.simps[of d pB samples]]
  show ?case
  proof (cases "busted pB \<noteq> 0 \<or> handvalue pB = 21")
    case True
    with run have "deal_n 0 d pB = (d', pB')" by (auto split: if_splits)
    then show ?thesis by blast
  next
    case False
    with run obtain choice rest0 where u: "userInput samples = Some (choice, rest0)"
      by (auto split: if_splits option.splits)
    show ?thesis
    proof (cases "choice = HIT")
      case hit: True
      obtain out d1 pB1 where dc: "dealCard d pB = (out, d1, pB1)" by (cases "dealCard d pB")
      from run False u hit dc
      have r: "playTurnB d1 pB1 rest0 = Some (d', pB', rest)" by (simp split: if_splits)
      have b: "\<not> busted pB \<noteq> 0" "handvalue pB \<noteq> 21" using False by auto
      from "1.IH"[OF b u refl hit dc[symmetric] refl r]
      obtain m where "deal_n m d1 pB1 = (d', pB')" by blast
      then have "deal_n (Suc m) d pB = (d', pB')" using dc by simp
      then show ?thesis by blast
    next
      case stay: False
      from run False u stay have "deal_n 0 d pB = (d', pB')" by (auto split: if_splits)
      then show ?thesis by blast
    qed
  qed
qed

lemma playTurn_no_split:
  assumes g: "rank pA ! 0 \<noteq> rank pA ! 1 \<and> 2 \<le> handsize pA" and e: "empty pB \<noteq> 0"
    and r: "playTurn d pA pB samples = Some (d', pA', pB', rest)"
  shows "pB' = pB \<and> (\<exists>n. deal_n n d pA = (d', pA'))"
proof -
  from r obtain d1 pA1 pB1 rest1
    where a: "playTurnA 1 d pA pB samples = Some (d1, pA1, pB1, rest1)"
    by (auto simp: playTurn_def split: option.splits)
  have "(1::int) = 0 \<or> (rank pA ! 0 \<noteq> rank pA ! 1 \<and> 2 \<le> handsize pA)" using g by simp
  from playTurnA_no_split[OF this a] have n: "pB1 = pB" "\<exists>n. deal_n n d pA = (d1, pA1)" by simp_all
  from r a n(1) e have "d' = d1 \<and> pA' = pA1 \<and> pB' = pB" by (simp add: playTurn_def)
  with n show ?thesis by simp
qed

lemma playTurn_split_declined:
  assumes g: "rank pA ! 0 = rank pA ! 1" and u: "userInput samples = Some (answer, rest0)"
    and no: "answer \<noteq> HIT" and e: "empty pB \<noteq> 0"
    and r: "playTurn d pA pB samples = Some (d', pA', pB', rest)"
  shows "pB' = pB \<and> (\<exists>n. deal_n n d pA = (d', pA'))"
proof -
  from r obtain d1 pA1 pB1 rest1
    where a: "playTurnA 1 d pA pB samples = Some (d1, pA1, pB1, rest1)"
    by (auto simp: playTurn_def split: option.splits)
  have "playTurnA 1 d pA pB samples = playTurnA 0 d pA pB rest0"
    using playTurnA_split_offer[OF g _ u, of 1 d pB] no by simp
  with a have a0: "playTurnA 0 d pA pB rest0 = Some (d1, pA1, pB1, rest1)" by simp
  have "(0::int) = 0 \<or> (rank pA ! 0 \<noteq> rank pA ! 1 \<and> 2 \<le> handsize pA)" by simp
  from playTurnA_no_split[OF this a0] have n: "pB1 = pB" "\<exists>n. deal_n n d pA = (d1, pA1)" by simp_all
  from r a n(1) e have "d' = d1 \<and> pA' = pA1 \<and> pB' = pB" by (simp add: playTurn_def)
  with n show ?thesis by simp
qed

lemma playTurn_split_accepted:
  assumes g: "rank pA ! 0 = rank pA ! 1" and u: "userInput samples = Some (HIT, rest0)"
    and r: "playTurn d pA pB samples = Some (d', pA', pB', rest)"
  shows "\<exists>n m dA. deal_n n (fst (split d pA pB)) (fst (snd (split d pA pB))) = (dA, pA')
           \<and> deal_n m dA (snd (snd (split d pA pB))) = (d', pB')"
proof -
  obtain d1 pA1 pB1 where sp: "split d pA pB = (d1, pA1, pB1)" by (cases "split d pA pB")
  from r obtain d2 pA2 pB2 rest2
    where a: "playTurnA 1 d pA pB samples = Some (d2, pA2, pB2, rest2)"
    by (auto simp: playTurn_def split: option.splits)
  have "playTurnA 1 d pA pB samples = playTurnA 0 d1 pA1 pB1 rest0"
    using playTurnA_split_offer[OF g _ u, of 1 d pB] sp by simp
  with a have a0: "playTurnA 0 d1 pA1 pB1 rest0 = Some (d2, pA2, pB2, rest2)" by simp
  have "(0::int) = 0 \<or> (rank pA1 ! 0 \<noteq> rank pA1 ! 1 \<and> 2 \<le> handsize pA1)" by simp
  from playTurnA_no_split[OF this a0]
  obtain n where n: "pB2 = pB1" "deal_n n d1 pA1 = (d2, pA2)" by blast
  have "\<exists>m. deal_n m d2 pB1 = (d', pB') \<and> pA' = pA2"
  proof (cases "empty pB2 \<noteq> 0")
    case True
    with r a n(1) have "deal_n 0 d2 pB1 = (d', pB') \<and> pA' = pA2" by (simp add: playTurn_def)
    then show ?thesis by blast
  next
    case False
    with r a obtain rest3 where b: "playTurnB d2 pB2 rest2 = Some (d', pB', rest3)" and e: "pA' = pA2"
      by (auto simp: playTurn_def split: option.splits)
    from playTurnB_deals[OF b] n(1) e show ?thesis by simp
  qed
  with n(2) sp show ?thesis by auto
qed


text \<open>
  Claim C6, amended. The precondition of a split is tested by \<^verbatim>\<open>playTurn\<close>, the only caller
  of \<^verbatim>\<open>split\<close>, in its loop for the primary hand, which it enters with \<^verbatim>\<open>askSplit\<close> set.
  \<^item> While the first two ranks are equal and \<^verbatim>\<open>askSplit\<close> is set, the loop asks the player:
    on \<^verbatim>\<open>HIT\<close> it calls \<^verbatim>\<open>split\<close> and goes on with \<^verbatim>\<open>askSplit\<close> cleared; on any other answer
    it goes on with \<^verbatim>\<open>askSplit\<close> cleared and the hands and the deck as they were.
  \<^item> Once \<^verbatim>\<open>askSplit\<close> is cleared, or when the first two ranks of a hand of at least two
    cards differ, the loop does not call \<^verbatim>\<open>split\<close>: when it ends, the secondary hand is as it
    was and the primary hand and the deck have changed by calls of \<^verbatim>\<open>dealCard\<close> only.
  \<^item> So a whole \<^verbatim>\<open>playTurn\<close> that ends, entered with an empty secondary hand, has not called
    \<^verbatim>\<open>split\<close> when the first two ranks (of at least two cards) differ or when the player
    answers the offer with anything but \<^verbatim>\<open>HIT\<close>: the secondary hand is as it was and the
    primary hand and the deck have changed by \<^verbatim>\<open>dealCard\<close> only.
  \<^item> A whole \<^verbatim>\<open>playTurn\<close> that ends, with equal first two ranks and the answer \<^verbatim>\<open>HIT\<close>, has
    called \<^verbatim>\<open>split\<close> once, first; after it the primary hand, then the secondary hand, have
    changed by \<^verbatim>\<open>dealCard\<close> only.
\<close>

theorem playTurn_splits_only_when_offered:
  "(rank pA ! 0 = rank pA ! 1 \<and> askSplit \<noteq> 0 \<and> userInput samples = Some (answer, later) \<longrightarrow>
      playTurnA askSplit d pA pB samples =
        (if answer = HIT
         then playTurnA 0 (fst (split d pA pB)) (fst (snd (split d pA pB)))
                (snd (snd (split d pA pB))) later
         else playTurnA 0 d pA pB later))
   \<and> ((askSplit = 0 \<or> (rank pA ! 0 \<noteq> rank pA ! 1 \<and> 2 \<le> handsize pA))
        \<and> playTurnA askSplit d pA pB samples = Some (d', pA', pB', rest) \<longrightarrow>
      pB' = pB \<and> (\<exists>n. deal_n n d pA = (d', pA')))
   \<and> (rank pA ! 0 \<noteq> rank pA ! 1 \<and> 2 \<le> handsize pA \<and> empty pB \<noteq> 0
        \<and> playTurn d pA pB samples = Some (d', pA', pB', rest) \<longrightarrow>
      pB' = pB \<and> (\<exists>n. deal_n n d pA = (d', pA')))
   \<and> (rank pA ! 0 = rank pA ! 1 \<and> userInput samples = Some (answer, later) \<and> answer \<noteq> HIT
        \<and> empty pB \<noteq> 0 \<and> playTurn d pA pB samples = Some (d', pA', pB', rest) \<longrightarrow>
      pB' = pB \<and> (\<exists>n. deal_n n d pA = (d', pA')))
   \<and> (rank pA ! 0 = rank pA ! 1 \<and> userInput samples = Some (HIT, later)
        \<and> playTurn d pA pB samples = Some (d', pA', pB', rest) \<longrightarrow>
      (\<exists>n m dA. deal_n n (fst (split d pA pB)) (fst (snd (split d pA pB))) = (dA, pA')
           \<and> deal_n m dA (snd (snd (split d pA pB))) = (d', pB')))"
proof -
  have 1: "rank pA ! 0 = rank pA ! 1 \<and> askSplit \<noteq> 0 \<and> userInput samples = Some (answer, later) \<longrightarrow>
      playTurnA askSplit d pA pB samples =
        (if answer = HIT
         then playTurnA 0 (fst (split d pA pB)) (fst (snd (split d pA pB)))
                (snd (snd (split d pA pB))) later
         else playTurnA 0 d pA pB later)"
    using playTurnA_split_offer[of pA askSplit samples answer later d pB]
    by (simp split: prod.splits)
  have 2: "(askSplit = 0 \<or> (rank pA ! 0 \<noteq> rank pA ! 1 \<and> 2 \<le> handsize pA))
        \<and> playTurnA askSplit d pA pB samples = Some (d', pA', pB', rest) \<longrightarrow>
      pB' = pB \<and> (\<exists>n. deal_n n d pA = (d', pA'))"
    using playTurnA_no_split[of askSplit pA d pB samples d' pA' pB' rest] by blast
  have 3: "rank pA ! 0 \<noteq> rank pA ! 1 \<and> 2 \<le> handsize pA \<and> empty pB \<noteq> 0
        \<and> playTurn d pA pB samples = Some (d', pA', pB', rest) \<longrightarrow>
      pB' = pB \<and> (\<exists>n. deal_n n d pA = (d', pA'))"
    using playTurn_no_split[of pA pB d samples d' pA' pB' rest] by blast
  have 4: "rank pA ! 0 = rank pA ! 1 \<and> userInput samples = Some (answer, later) \<and> answer \<noteq> HIT
        \<and> empty pB \<noteq> 0 \<and> playTurn d pA pB samples = Some (d', pA', pB', rest) \<longrightarrow>
      pB' = pB \<and> (\<exists>n. deal_n n d pA = (d', pA'))"
    using playTurn_split_declined[of pA samples answer later pB d d' pA' pB' rest] by blast
  have 5: "rank pA ! 0 = rank pA ! 1 \<and> userInput samples = Some (HIT, later)
        \<and> playTurn d pA pB samples = Some (d', pA', pB', rest) \<longrightarrow>
      (\<exists>n m dA. deal_n n (fst (split d pA pB)) (fst (snd (split d pA pB))) = (dA, pA')
           \<and> deal_n m dA (snd (snd (split d pA pB))) = (d', pB'))"
    using playTurn_split_accepted[of pA samples later d pB d' pA' pB' rest] by blast
  show ?thesis by (rule conjI[OF 1 conjI[OF 2 conjI[OF 3 conjI[OF 4 5]]]])
qed

lemma userInput_60_40: "userInput (60 # 40 # rest) = Some (STAY, rest)"
  using userInput_clear_then_zone[of 60 40 rest] codes_distinct by (simp add: zone_vals)

lemma two_kings_facts:
  "rank (snd two_kings) ! 0 = rank (snd two_kings) ! 1"
  "rank (snd two_kings) ! 0 = rank (snd two_kings) ! Suc 0"
  "busted (snd two_kings) = 0" "handvalue (snd two_kings) = 20"
  by (simp_all add: two_kings_def deck_K_K_5_8_def eval_defs)

lemma split_two_kings_facts:
  "busted (fst (snd split_two_kings)) = 0" "handvalue (fst (snd split_two_kings)) = 12"
  "empty (snd (snd split_two_kings)) = 0" "busted (snd (snd split_two_kings)) = 0"
  "handvalue (snd (snd split_two_kings)) = 21"
  by (simp_all add: split_two_kings_def two_kings_def deck_K_K_5_8_def eval_defs)

lemma ten_five_playTurn:
  "\<exists>d' pA'. playTurn (fst ten_five) (snd ten_five) (emptyHand hand0) [60, 10, 60, 40]
     = Some (d', pA', emptyHand hand0, [60, 40])"
proof -
  obtain d' pA' where "playTurnA 1 (fst ten_five) (snd ten_five) (emptyHand hand0) [60, 10, 60, 40]
     = Some (d', pA', emptyHand hand0, [60, 40])" using ten_five_turn by blast
  moreover have "empty (emptyHand hand0) = 1" by (simp add: emptyHand_def)
  ultimately have "playTurn (fst ten_five) (snd ten_five) (emptyHand hand0) [60, 10, 60, 40]
     = Some (d', pA', emptyHand hand0, [60, 40])" by (simp add: playTurn_def)
  then show ?thesis by blast
qed

lemma two_kings_split_turn:
  "playTurn (fst two_kings) (snd two_kings) (emptyHand hand0) [60, 10, 60, 40]
     = Some (fst split_two_kings, fst (snd split_two_kings), snd (snd split_two_kings), [])"
proof -
  let ?d1 = "fst split_two_kings" and ?a1 = "fst (snd split_two_kings)"
    and ?b1 = "snd (snd split_two_kings)"
  have sp: "split (fst two_kings) (snd two_kings) (emptyHand hand0) = (?d1, ?a1, ?b1)"
    by (simp add: split_two_kings_def)
  have 1: "playTurnA 1 (fst two_kings) (snd two_kings) (emptyHand hand0) [60, 10, 60, 40]
      = playTurnA 0 ?d1 ?a1 ?b1 [60, 40]"
    using playTurnA_split_offer[OF two_kings_facts(1) _ userInput_60_10,
        where askSplit = 1 and d = "fst two_kings" and pB = "emptyHand hand0" and rest = "[60, 40]"]
      sp by (simp add: case_prod_beta)
  have 2: "playTurnA 0 ?d1 ?a1 ?b1 [60, 40] = Some (?d1, ?a1, ?b1, [])"
    using codes_distinct
    by (subst playTurnA.simps) (auto simp add: split_two_kings_facts userInput_60_40)
  have 3: "playTurnB ?d1 ?b1 [] = Some (?d1, ?b1, [])"
    by (subst playTurnB.simps) (simp add: split_two_kings_facts)
  show ?thesis by (simp add: playTurn_def 1 2 3 split_two_kings_facts)
qed

lemma two_kings_declined_turn:
  "playTurn (fst two_kings) (snd two_kings) (emptyHand hand0) [60, 40, 60, 40]
     = Some (fst two_kings, snd two_kings, emptyHand hand0, [])"
proof -
  have n: "STAY \<noteq> HIT" using codes_distinct by auto
  have 1: "playTurnA 1 (fst two_kings) (snd two_kings) (emptyHand hand0) [60, 40, 60, 40]
      = playTurnA 0 (fst two_kings) (snd two_kings) (emptyHand hand0) [60, 40]"
    using playTurnA_split_offer[OF two_kings_facts(1) _ userInput_60_40,
        where askSplit = 1 and d = "fst two_kings" and pB = "emptyHand hand0" and rest = "[60, 40]"]
      n by simp
  have 2: "playTurnA 0 (fst two_kings) (snd two_kings) (emptyHand hand0) [60, 40]
      = Some (fst two_kings, snd two_kings, emptyHand hand0, [])"
    by (subst playTurnA.simps) (simp add: two_kings_facts userInput_60_40 n)
  have e: "empty (emptyHand hand0) = 1" by (simp add: emptyHand_def)
  show ?thesis by (simp add: playTurn_def 1 2 e)
qed


theorem playTurn_splits_only_when_offered_witness:
  "rank (snd ten_five) ! 0 \<noteq> rank (snd ten_five) ! 1
   \<and> (\<exists>d' pA'. playTurn (fst ten_five) (snd ten_five) (emptyHand hand0) [60, 10, 60, 40]
          = Some (d', pA', emptyHand hand0, [60, 40])
        \<and> (\<exists>n. deal_n n (fst ten_five) (snd ten_five) = (d', pA')))
   \<and> rank (snd two_kings) ! 0 = rank (snd two_kings) ! 1
   \<and> playTurn (fst two_kings) (snd two_kings) (emptyHand hand0) [60, 10, 60, 40]
        = Some (fst split_two_kings, fst (snd split_two_kings), snd (snd split_two_kings), [])
   \<and> (\<exists>n m dA. deal_n n (fst split_two_kings) (fst (snd split_two_kings))
                   = (dA, fst (snd split_two_kings))
        \<and> deal_n m dA (snd (snd split_two_kings))
                   = (fst split_two_kings, snd (snd split_two_kings)))
   \<and> playTurn (fst two_kings) (snd two_kings) (emptyHand hand0) [60, 40, 60, 40]
        = Some (fst two_kings, snd two_kings, emptyHand hand0, [])
   \<and> (\<exists>n. deal_n n (fst two_kings) (snd two_kings) = (fst two_kings, snd two_kings))"
proof -
  have e: "empty (emptyHand hand0) \<noteq> 0" by (simp add: emptyHand_def)
  have n: "STAY \<noteq> HIT" using codes_distinct by auto
  have t: "rank (snd ten_five) ! 0 \<noteq> rank (snd ten_five) ! 1" "2 \<le> handsize (snd ten_five)"
    by (simp_all add: ten_five_eval)
  obtain d' pA' where r: "playTurn (fst ten_five) (snd ten_five) (emptyHand hand0) [60, 10, 60, 40]
     = Some (d', pA', emptyHand hand0, [60, 40])" using ten_five_playTurn by blast
  from playTurn_splits_only_when_offered[where pA = "snd ten_five" and d = "fst ten_five"
      and pB = "emptyHand hand0" and samples = "[60, 10, 60, 40]" and d' = d' and pA' = pA'
      and pB' = "emptyHand hand0" and rest = "[60, 40]" and askSplit = 1 and answer = HIT
      and later = "[]"] t e r
  have a: "\<exists>n. deal_n n (fst ten_five) (snd ten_five) = (d', pA')" by blast
  from playTurn_splits_only_when_offered[where pA = "snd two_kings" and d = "fst two_kings"
      and pB = "emptyHand hand0" and samples = "[60, 10, 60, 40]" and later = "[60, 40]"
      and d' = "fst split_two_kings" and pA' = "fst (snd split_two_kings)"
      and pB' = "snd (snd split_two_kings)" and rest = "[]" and askSplit = 1 and answer = HIT]
    two_kings_facts(1) userInput_60_10[of "[60, 40]"] two_kings_split_turn
  have b: "\<exists>n m dA. deal_n n (fst split_two_kings) (fst (snd split_two_kings))
                   = (dA, fst (snd split_two_kings))
        \<and> deal_n m dA (snd (snd split_two_kings))
                   = (fst split_two_kings, snd (snd split_two_kings))"
    unfolding split_two_kings_def by blast
  from playTurn_splits_only_when_offered[where pA = "snd two_kings" and d = "fst two_kings"
      and pB = "emptyHand hand0" and samples = "[60, 40, 60, 40]" and later = "[60, 40]"
      and answer = STAY and d' = "fst two_kings" and pA' = "snd two_kings"
      and pB' = "emptyHand hand0" and rest = "[]" and askSplit = 1]
    two_kings_facts(1) userInput_60_40[of "[60, 40]"] two_kings_declined_turn n e
  have c: "\<exists>n. deal_n n (fst two_kings) (snd two_kings) = (fst two_kings, snd two_kings)"
    by blast
  from r a have "\<exists>d' pA'. playTurn (fst ten_five) (snd ten_five) (emptyHand hand0) [60, 10, 60, 40]
          = Some (d', pA', emptyHand hand0, [60, 40])
        \<and> (\<exists>n. deal_n n (fst ten_five) (snd ten_five) = (d', pA'))" by blast
  with t(1) two_kings_facts(1) two_kings_split_turn b two_kings_declined_turn c
  show ?thesis by simp
qed

section \<open>Properties of the dealer's turn\<close>

lemma dealerTurn_stop: "\<not> dealer_hits p \<Longrightarrow> dealerTurn d p = Some (d, p)"
  by (subst dealerTurn.simps) (auto simp: dealer_hits_def)

lemma dealerTurn_draw:
  "dealer_hits p \<Longrightarrow> dealerTurn d p = dealerTurn (fst (snd (dealCard d p))) (snd (snd (dealCard d p)))"
  by (subst dealerTurn.simps) (auto simp: dealer_hits_def split: prod.splits)













section \<open>Properties of the results\<close>

text \<open>
  The chain of \<^verbatim>\<open>dispResults\<close> on any two hand records. With equal values the second
  test answers first, so the last line needs the values to differ, as they do when the
  flags mean what their comments say.
\<close>

lemma dispResults_hand_cases:
  "(busted p \<noteq> 0 \<longrightarrow> dispResults_hand p dealer = '' LOST with '')
   \<and> (busted p = 0 \<and> busted dealer = 0 \<longrightarrow>
        (dispResults_hand p dealer = '' WON with '' \<longleftrightarrow> handvalue p > handvalue dealer)
      \<and> (dispResults_hand p dealer = '' PUSHED with '' \<longleftrightarrow> handvalue p = handvalue dealer)
      \<and> (dispResults_hand p dealer = '' LOST with '' \<longleftrightarrow> handvalue p < handvalue dealer))
   \<and> (busted p = 0 \<and> busted dealer \<noteq> 0 \<and> handvalue p \<le> 21 \<and> 21 < handvalue dealer \<longrightarrow>
        dispResults_hand p dealer = '' WON with '')"
  by (auto simp: dispResults_hand_def)

text \<open>The decks of the program are valid: \<^verbatim>\<open>initDeck\<close> writes one and \<^verbatim>\<open>shuffleDeck\<close> keeps it so.\<close>

lemma valid_deck_initDeck:
  assumes "length (rankG d) = nat SINGLEDECK" "length (suitG d) = nat SINGLEDECK"
  shows "valid_deck (initDeck d)"
  by (auto simp: initDeck_eq[OF assms] valid_deck_def deck_wf_def init_rank_def MAXSUIT_def)

lemma valid_deck_shuffleDeck:
  assumes "valid_deck d"
  shows "valid_deck (shuffleDeck rnd d)"
proof -
  let ?d = "shuffleDeck rnd d"
  have l: "length (rankG (d\<lparr>indexG := 0\<rparr>)) = nat SINGLEDECK"
          "length (suitG (d\<lparr>indexG := 0\<rparr>)) = nat SINGLEDECK"
    using assms by (simp_all add: valid_deck_def deck_wf_def)
  have s: "\<forall>i\<in>set [0..<nat SINGLEDECK]. i < nat SINGLEDECK" by simp
  have n: "0 < nat SINGLEDECK" by (simp add: SINGLEDECK_def)
  from fold_shuffle_step[OF s l n refl, of rnd]
  have sh: "indexG ?d = 0" "mset (deck_cards ?d) = mset (deck_cards d)"
       "length (rankG ?d) = nat SINGLEDECK" "length (suitG ?d) = nat SINGLEDECK"
    by (simp_all add: shuffleDeck_def deck_cards_def)
  have "set (deck_cards ?d) = set (deck_cards d)" using sh(2) by (rule mset_eq_setD)
  then have "fst ` set (zip (rankG ?d) (suitG ?d)) = fst ` set (zip (rankG d) (suitG d))"
    by (simp add: deck_cards_def)
  moreover have "length (rankG d) = length (suitG d)" using l by simp
  moreover have "length (rankG ?d) = length (suitG ?d)" using sh(3,4) by simp
  ultimately have "set (rankG ?d) = set (rankG d)"
    by (metis map_fst_zip set_map)
  with assms sh show ?thesis by (simp add: valid_deck_def deck_wf_def)
qed

lemma settle_score_value_ok:
  assumes "value_ok p" "\<not> (busted p = 0 \<and> handvalue p = 21 \<and> r = 1)" "r \<le> 13"
  shows "value_ok (settle_bust (score_card r p))"
  using assms by (auto simp: value_ok_def settle_bust_def score_card_def)

lemma settle_score_bust_ok:
  assumes "bust_ok p" "1 \<le> r"
  shows "bust_ok (settle_bust (score_card r p))"
  using assms by (auto simp: bust_ok_def settle_bust_def score_card_def)

lemma dealCard_valid_deck:
  assumes "valid_deck d" "dealCard d p = (out, d1, p1)"
  shows "valid_deck d1 \<and> rankG d1 = rankG d"
proof (cases "indexG d \<ge> SINGLEDECK \<or> handsize p \<ge> MAXHAND")
  case True
  with assms show ?thesis by (simp add: dealCard_def)
next
  case False
  with assms show ?thesis
    by (auto simp: dealCard_success[OF False] valid_deck_def deck_wf_def)
qed

lemma valid_deck_rank:
  assumes "valid_deck d" "\<not> indexG d \<ge> SINGLEDECK"
  shows "1 \<le> rankG d ! nat (indexG d) \<and> rankG d ! nat (indexG d) \<le> 13"
proof -
  have "nat (indexG d) < length (rankG d)"
    using assms by (auto simp: valid_deck_def deck_wf_def)
  then have "rankG d ! nat (indexG d) \<in> set (rankG d)" by simp
  with assms(1) show ?thesis unfolding valid_deck_def by blast
qed

lemma dealCard_value_ok:
  assumes "valid_deck d" "value_ok p"
    "\<not> (busted p = 0 \<and> handvalue p = 21 \<and> rankG d ! nat (indexG d) = 1)"
    "dealCard d p = (out, d1, p1)"
  shows "value_ok p1"
proof (cases "indexG d \<ge> SINGLEDECK \<or> handsize p \<ge> MAXHAND")
  case True
  with assms show ?thesis by (simp add: dealCard_def)
next
  case False
  let ?r = "rankG d ! nat (indexG d)"
  let ?q = "p\<lparr>rank := (rank p)[nat (handsize p) := ?r],
           suit := (suit p)[nat (handsize p) := suitG d ! nat (indexG d)],
           handsize := handsize p + 1\<rparr>"
  have r: "?r \<le> 13" using valid_deck_rank[OF assms(1)] False by simp
  have q: "value_ok ?q" "\<not> (busted ?q = 0 \<and> handvalue ?q = 21 \<and> ?r = 1)"
    using assms(2,3) by (simp_all add: value_ok_def)
  have "value_ok (settle_bust (score_card ?r ?q))"
    by (rule settle_score_value_ok[OF q r])
  then have "value_ok ((settle_bust (score_card ?r ?q))\<lparr>empty := 0\<rparr>)"
    by (simp add: value_ok_def)
  with assms(4) show ?thesis unfolding dealCard_success[OF False] by simp
qed

lemma dealCard_bust_ok:
  assumes "valid_deck d" "bust_ok p" "dealCard d p = (out, d1, p1)"
  shows "bust_ok p1"
proof (cases "indexG d \<ge> SINGLEDECK \<or> handsize p \<ge> MAXHAND")
  case True
  with assms show ?thesis by (simp add: dealCard_def)
next
  case False
  let ?r = "rankG d ! nat (indexG d)"
  let ?q = "p\<lparr>rank := (rank p)[nat (handsize p) := ?r],
           suit := (suit p)[nat (handsize p) := suitG d ! nat (indexG d)],
           handsize := handsize p + 1\<rparr>"
  have r: "1 \<le> ?r" using valid_deck_rank[OF assms(1)] False by simp
  have q: "bust_ok ?q" using assms(2) by (simp add: bust_ok_def)
  have "bust_ok (settle_bust (score_card ?r ?q))"
    by (rule settle_score_bust_ok[OF q r])
  then have "bust_ok ((settle_bust (score_card ?r ?q))\<lparr>empty := 0\<rparr>)"
    by (simp add: bust_ok_def)
  with assms(3) show ?thesis unfolding dealCard_success[OF False] by simp
qed

text \<open>Both flags together: an invariant kept by every deal but an ace onto 21.\<close>

lemma dealCard_keeps_busted_iff_over_21:
  assumes "valid_deck d" "(busted p \<noteq> 0) = (21 < handvalue p)" "busted p \<noteq> 0 \<longrightarrow> soft p \<le> 0"
    "\<not> (handvalue p = 21 \<and> rankG d ! nat (indexG d) = 1)"
    "dealCard d p = (out, d1, p1)"
  shows "(busted p1 \<noteq> 0) = (21 < handvalue p1) \<and> (busted p1 \<noteq> 0 \<longrightarrow> soft p1 \<le> 0)"
proof -
  have v: "value_ok p" and b: "bust_ok p" using assms(2,3) by (auto simp: value_ok_def bust_ok_def)
  have n: "\<not> (busted p = 0 \<and> handvalue p = 21 \<and> rankG d ! nat (indexG d) = 1)"
    using assms(4) by simp
  from dealCard_value_ok[OF assms(1) v n assms(5)] dealCard_bust_ok[OF assms(1) b assms(5)]
  show ?thesis by (auto simp: value_ok_def bust_ok_def)
qed

lemma deal_n_keeps_busted_iff_over_21:
  assumes "valid_deck d" "(busted p \<noteq> 0) = (21 < handvalue p)" "busted p \<noteq> 0 \<longrightarrow> soft p \<le> 0"
    "no_ace_on_21 n d p"
  shows "(busted (snd (deal_n n d p)) \<noteq> 0) = (21 < handvalue (snd (deal_n n d p)))"
  using assms
proof (induction n arbitrary: d p)
  case 0
  then show ?case by simp
next
  case (Suc n)
  obtain out d1 p1 where dc: "dealCard d p = (out, d1, p1)" by (cases "dealCard d p")
  have g: "no_ace_on_21 n d1 p1" using Suc.prems(4) dc by simp
  show ?case
  proof (cases "indexG d \<ge> SINGLEDECK \<or> handsize p \<ge> MAXHAND")
    case True
    then have "d1 = d" "p1 = p" using dc by (auto simp: dealCard_def)
    with Suc.IH[OF Suc.prems(1,2,3)] g dc show ?thesis by simp
  next
    case False
    with Suc.prems(4) have a: "\<not> (handvalue p = 21 \<and> rankG d ! nat (indexG d) = 1)" by auto
    note k = dealCard_keeps_busted_iff_over_21[OF Suc.prems(1,2,3) a dc]
    have v: "valid_deck d1" using dealCard_valid_deck[OF Suc.prems(1) dc] by simp
    from k have k1: "(busted p1 \<noteq> 0) = (21 < handvalue p1)"
      and k2: "busted p1 \<noteq> 0 \<longrightarrow> soft p1 \<le> 0"
      by blast+
    from Suc.IH[OF v k1 k2 g] dc show ?thesis by simp
  qed
qed

text \<open>
  Claim C1, amended. For every sequence of cards of ranks 1 to 13 dealt by \<^verbatim>\<open>dealCard\<close> to
  a hand that starts empty, in which no ace is dealt to a hand worth exactly 21,
  \<^verbatim>\<open>busted\<close> is set if and only if \<^verbatim>\<open>handvalue\<close> exceeds 21; in particular such a hand never
  shows a value over 21 with \<^verbatim>\<open>busted\<close> clear.
\<close>

theorem dealCard_busted_iff_over_21:
  assumes "valid_deck d" "no_ace_on_21 n d (emptyHand p)"
  shows "(busted (snd (deal_n n d (emptyHand p))) \<noteq> 0)
           = (21 < handvalue (snd (deal_n n d (emptyHand p))))"
proof -
  have "(busted (emptyHand p) \<noteq> 0) = (21 < handvalue (emptyHand p))"
       "busted (emptyHand p) \<noteq> 0 \<longrightarrow> soft (emptyHand p) \<le> 0"
    by (simp_all add: emptyHand_def)
  from deal_n_keeps_busted_iff_over_21[OF assms(1) this assms(2)] show ?thesis .
qed

lemma valid_deck_K_K_5_8: "valid_deck deck_K_K_5_8"
  by (simp add: valid_deck_def deck_wf_def deck_K_K_5_8_def SINGLEDECK_def)

lemma no_ace_on_21_kings: "no_ace_on_21 3 deck_K_K_5_8 (emptyHand hand0)"
  by (simp add: deck_K_K_5_8_def eval_defs)

text \<open>The sequence ten, five, six, ace is one that the amended claim leaves out.\<close>

lemma ace_on_21_in_example: "\<not> no_ace_on_21 4 deck_10_5_6_A (emptyHand hand0)"
  by (simp add: deck_10_5_6_A_def eval_defs)

theorem dealCard_busted_iff_over_21_witness:
  "valid_deck deck_K_K_5_8 \<and> no_ace_on_21 3 deck_K_K_5_8 (emptyHand hand0)
   \<and> busted (snd (deal_n 3 deck_K_K_5_8 (emptyHand hand0))) = 1
   \<and> handvalue (snd (deal_n 3 deck_K_K_5_8 (emptyHand hand0))) = 25
   \<and> ((busted (snd (deal_n 3 deck_K_K_5_8 (emptyHand hand0))) \<noteq> 0)
        = (21 < handvalue (snd (deal_n 3 deck_K_K_5_8 (emptyHand hand0)))))"
proof -
  have e: "busted (snd (deal_n 3 deck_K_K_5_8 (emptyHand hand0))) = 1"
    "handvalue (snd (deal_n 3 deck_K_K_5_8 (emptyHand hand0))) = 25"
    by (simp_all add: deck_K_K_5_8_def eval_defs)
  from dealCard_busted_iff_over_21[OF valid_deck_K_K_5_8 no_ace_on_21_kings]
    valid_deck_K_K_5_8 no_ace_on_21_kings e
  show ?thesis by blast
qed

lemma playTurnB_value_ok:
  assumes "valid_deck d" "value_ok pB" "playTurnB d pB samples = Some (d', pB', rest)"
  shows "value_ok pB' \<and> valid_deck d'"
  using assms
proof (induction d pB samples rule: playTurnB.induct)
  case (1 d pB samples)
  note run = "1.prems"(3)[unfolded playTurnB.simps[of d pB samples]]
  show ?case
  proof (cases "busted pB \<noteq> 0 \<or> handvalue pB = 21")
    case True
    with run have "d' = d \<and> pB' = pB" by (auto split: if_splits)
    with "1.prems" show ?thesis by simp
  next
    case False
    with run obtain choice rest0 where u: "userInput samples = Some (choice, rest0)"
      by (auto split: if_splits option.splits)
    show ?thesis
    proof (cases "choice = HIT")
      case hit: True
      obtain out d1 pB1 where dc: "dealCard d pB = (out, d1, pB1)" by (cases "dealCard d pB")
      from run False u hit dc
      have r: "playTurnB d1 pB1 rest0 = Some (d', pB', rest)" by (simp split: if_splits)
      have b: "\<not> busted pB \<noteq> 0" "handvalue pB \<noteq> 21" using False by auto
      have n: "\<not> (busted pB = 0 \<and> handvalue pB = 21 \<and> rankG d ! nat (indexG d) = 1)"
        using False by simp
      have v1: "value_ok pB1" by (rule dealCard_value_ok[OF "1.prems"(1,2) n dc])
      have d1: "valid_deck d1" using dealCard_valid_deck[OF "1.prems"(1) dc] by simp
      show ?thesis by (rule "1.IH"[OF b u refl hit dc[symmetric] refl d1 v1 r])
    next
      case stay: False
      from run False u stay have "d' = d \<and> pB' = pB" by (auto split: if_splits)
      with "1.prems" show ?thesis by simp
    qed
  qed
qed

lemma split_value_ok:
  assumes d: "valid_deck d" and a: "value_ok pA" and c: "1 \<le> rank pA ! 1" "rank pA ! 1 \<le> 13"
    and b: "handvalue pB = 0" "busted pB = 0"
    and s: "split d pA pB = (d1, pA1, pB1)"
  shows "value_ok pA1 \<and> value_ok pB1 \<and> valid_deck d1"
proof -
  obtain qA qB where m: "split_move pA pB = (qA, qB)" by (cases "split_move pA pB")
  obtain outA dA rA where dA: "dealCard d qA = (outA, dA, rA)" by (cases "dealCard d qA")
  obtain outB dB rB where dB: "dealCard dA qB = (outB, dB, rB)" by (cases "dealCard dA qB")
  from s m dA dB have e: "d1 = dB" "pA1 = rA" "pB1 = rB" by (simp_all add: split_def)
  have qA: "value_ok qA" "busted qA = 0 \<longrightarrow> handvalue qA \<noteq> 21"
    using m a c by (auto simp: split_move_def Let_def value_ok_def split: if_splits)
  have qB: "value_ok qB" "busted qB = 0 \<longrightarrow> handvalue qB \<noteq> 21"
    using m b c by (auto simp: split_move_def Let_def value_ok_def split: if_splits)
  have vA: "valid_deck dA" using dealCard_valid_deck[OF d dA] by simp
  have vB: "valid_deck dB" using dealCard_valid_deck[OF vA dB] by simp
  have "value_ok rA" using dealCard_value_ok[OF d qA(1) _ dA] qA(2) by blast
  moreover have "value_ok rB" using dealCard_value_ok[OF vA qB(1) _ dB] qB(2) by blast
  ultimately show ?thesis using vB e by simp
qed

lemma playTurnA_value_ok:
  assumes "valid_deck d" "value_ok pA" "value_ok pB"
    "askSplit \<noteq> 0 \<longrightarrow> handvalue pB = 0 \<and> busted pB = 0 \<and> 2 \<le> handsize pA
        \<and> 1 \<le> rank pA ! 1 \<and> rank pA ! 1 \<le> 13"
    "playTurnA askSplit d pA pB samples = Some (d', pA', pB', rest)"
  shows "value_ok pA' \<and> value_ok pB' \<and> valid_deck d'"
  using assms
proof (induction askSplit d pA pB samples rule: playTurnA.induct)
  case (1 askSplit d pA pB samples)
  note run = "1.prems"(5)[unfolded playTurnA.simps[of askSplit d pA pB samples]]
  show ?case
  proof (cases "rank pA ! 0 = rank pA ! 1 \<and> askSplit \<noteq> 0")
    case offer: True
    with run obtain answer rest0 where u: "userInput samples = Some (answer, rest0)"
      by (auto split: option.splits)
    show ?thesis
    proof (cases "answer = HIT")
      case yes: True
      obtain d1 pA1 pB1 where sp: "split d pA pB = (d1, pA1, pB1)" by (cases "split d pA pB")
      from run offer u yes sp
      have r: "playTurnA 0 d1 pA1 pB1 rest0 = Some (d', pA', pB', rest)" by simp
      have pre: "handvalue pB = 0" "busted pB = 0" "1 \<le> rank pA ! 1" "rank pA ! 1 \<le> 13"
        using "1.prems"(4) offer by auto
      note ok = split_value_ok[OF "1.prems"(1,2) pre(3,4) pre(1,2) sp]
      have g: "(0::int) \<noteq> 0 \<longrightarrow> handvalue pB1 = 0 \<and> busted pB1 = 0 \<and> 2 \<le> handsize pA1
        \<and> 1 \<le> rank pA1 ! 1 \<and> rank pA1 ! 1 \<le> 13" by simp
      from ok have o: "valid_deck d1" "value_ok pA1" "value_ok pB1" by simp_all
      show ?thesis by (rule "1.IH"(1)[OF offer u refl yes sp[symmetric] refl o g r])
    next
      case no: False
      from run offer u no
      have r: "playTurnA 0 d pA pB rest0 = Some (d', pA', pB', rest)" by simp
      have g: "(0::int) \<noteq> 0 \<longrightarrow> handvalue pB = 0 \<and> busted pB = 0 \<and> 2 \<le> handsize pA
        \<and> 1 \<le> rank pA ! 1 \<and> rank pA ! 1 \<le> 13" by simp
      show ?thesis by (rule "1.IH"(2)[OF offer u refl no "1.prems"(1,2,3) g r])
    qed
  next
    case ne: False
    show ?thesis
    proof (cases "busted pA \<noteq> 0 \<or> handvalue pA = 21")
      case True
      with run ne have "d' = d \<and> pA' = pA \<and> pB' = pB" by (auto split: if_splits)
      with "1.prems" show ?thesis by simp
    next
      case False
      with run ne obtain choice rest0 where u: "userInput samples = Some (choice, rest0)"
        by (auto split: if_splits option.splits)
      show ?thesis
      proof (cases "choice = HIT")
        case hit: True
        obtain out d1 pA1 where dc: "dealCard d pA = (out, d1, pA1)" by (cases "dealCard d pA")
        from run ne False u hit dc
        have r: "playTurnA askSplit d1 pA1 pB rest0 = Some (d', pA', pB', rest)"
          by (simp split: if_splits)
        have b: "\<not> busted pA \<noteq> 0" "handvalue pA \<noteq> 21" using False by auto
        have n: "\<not> (busted pA = 0 \<and> handvalue pA = 21 \<and> rankG d ! nat (indexG d) = 1)"
          using False by simp
        have v1: "value_ok pA1" by (rule dealCard_value_ok[OF "1.prems"(1,2) n dc])
        have d1: "valid_deck d1" using dealCard_valid_deck[OF "1.prems"(1) dc] by simp
        have g: "askSplit \<noteq> 0 \<longrightarrow> handvalue pB = 0 \<and> busted pB = 0 \<and> 2 \<le> handsize pA1
          \<and> 1 \<le> rank pA1 ! 1 \<and> rank pA1 ! 1 \<le> 13"
          using "1.prems"(4) dealCard_keeps_first_two[OF _ dc] by auto
        show ?thesis
          by (rule "1.IH"(3)[OF ne b u refl hit dc[symmetric] refl d1 v1 "1.prems"(3) g r])
      next
        case stay: False
        from run ne False u stay have "d' = d \<and> pA' = pA \<and> pB' = pB"
          by (auto split: if_splits)
        with "1.prems" show ?thesis by simp
      qed
    qed
  qed
qed

lemma dealerTurn_bust_ok:
  assumes r: "dealerTurn d p = Some y" and d: "valid_deck d" and b: "bust_ok p"
  shows "bust_ok (snd y)"
proof -
  have "valid_deck d \<and> bust_ok p \<longrightarrow> bust_ok (snd y)"
  proof (rule dealerTurn.raw_induct[where P = "\<lambda>d p y. valid_deck d \<and> bust_ok p \<longrightarrow> bust_ok (snd y)",
          OF _ r])
    fix f d0 dealer y0
    assume IH: "\<And>d1 p1 y1. f d1 p1 = Some y1 \<Longrightarrow> valid_deck d1 \<and> bust_ok p1 \<longrightarrow> bust_ok (snd y1)"
      and F: "(if busted dealer \<noteq> 0 then Some (d0, dealer)
        else if handvalue dealer < 17 \<or> (handvalue dealer = 17 \<and> soft dealer \<noteq> 0)
        then (case dealCard d0 dealer of (out, d1, dealer1) \<Rightarrow> f d1 dealer1)
        else Some (d0, dealer)) = Some y0"
    show "valid_deck d0 \<and> bust_ok dealer \<longrightarrow> bust_ok (snd y0)"
    proof
      assume a: "valid_deck d0 \<and> bust_ok dealer"
      show "bust_ok (snd y0)"
      proof (cases "dealer_hits dealer")
        case True
        obtain out d1 dealer1 where dc: "dealCard d0 dealer = (out, d1, dealer1)"
          by (cases "dealCard d0 dealer")
        with True F have "f d1 dealer1 = Some y0"
          by (auto simp: dealer_hits_def split: if_splits)
        moreover have "valid_deck d1" using dealCard_valid_deck[OF _ dc] a by simp
        moreover have "bust_ok dealer1" using dealCard_bust_ok[OF _ _ dc] a by simp
        ultimately show ?thesis using IH by blast
      next
        case False
        with F have "y0 = (d0, dealer)" by (auto simp: dealer_hits_def split: if_splits)
        with a show ?thesis by simp
      qed
    qed
  qed
  with d b show ?thesis by simp
qed

lemma playTurn_value_ok:
  assumes "valid_deck d" "value_ok pA" "handvalue pB = 0" "busted pB = 0" "2 \<le> handsize pA"
    "1 \<le> rank pA ! 1" "rank pA ! 1 \<le> 13"
    "playTurn d pA pB samples = Some (d', pA', pB', rest)"
  shows "value_ok pA' \<and> value_ok pB'"
proof -
  from assms(8) obtain d1 pA1 pB1 rest1
    where a: "playTurnA 1 d pA pB samples = Some (d1, pA1, pB1, rest1)"
    by (auto simp: playTurn_def split: option.splits)
  have vB: "value_ok pB" using assms(3,4) by (simp add: value_ok_def)
  have g: "(1::int) \<noteq> 0 \<longrightarrow> handvalue pB = 0 \<and> busted pB = 0 \<and> 2 \<le> handsize pA
        \<and> 1 \<le> rank pA ! 1 \<and> rank pA ! 1 \<le> 13" using assms by simp
  note ok = playTurnA_value_ok[OF assms(1,2) vB g a]
  show ?thesis
  proof (cases "empty pB1 \<noteq> 0")
    case True
    with assms(8) a ok show ?thesis by (simp add: playTurn_def)
  next
    case False
    with assms(8) a obtain d2 pB2 rest2
      where b: "playTurnB d1 pB1 rest1 = Some (d2, pB2, rest2)" and e: "pA' = pA1" "pB' = pB2"
      by (auto simp: playTurn_def split: option.splits)
    from playTurnB_value_ok[OF _ _ b] ok e show ?thesis by simp
  qed
qed

lemma first_card_dealt:
  assumes "valid_deck d" "dealCard d (emptyHand p) = ([], d1, p1)"
  shows "busted p1 = 0 \<and> handvalue p1 \<le> 11 \<and> 0 \<le> soft p1 \<and> handsize p1 = 1
       \<and> length (rank p1) = nat MAXHAND"
proof -
  have ok: "\<not> (indexG d \<ge> SINGLEDECK \<or> handsize (emptyHand p) \<ge> MAXHAND)"
    using assms(2) cannot_deal_msg_nonempty by (auto simp: dealCard_def split: if_splits)
  have r: "1 \<le> rankG d ! nat (indexG d)" "rankG d ! nat (indexG d) \<le> 13"
    using valid_deck_rank[OF assms(1)] ok by simp_all
  from assms(2) r show ?thesis unfolding dealCard_success[OF ok]
    by (auto simp: emptyHand_def score_card_def settle_bust_def)
qed

lemma second_card_dealt:
  assumes "valid_deck d" "busted p = 0" "handvalue p \<le> 11" "0 \<le> soft p" "handsize p = 1"
    "length (rank p) = nat MAXHAND" "dealCard d p = ([], d1, p1)"
  shows "busted p1 = 0 \<and> handvalue p1 \<le> 21 \<and> handsize p1 = 2
       \<and> 1 \<le> rank p1 ! 1 \<and> rank p1 ! 1 \<le> 13"
proof -
  have ok: "\<not> (indexG d \<ge> SINGLEDECK \<or> handsize p \<ge> MAXHAND)"
    using assms(7) cannot_deal_msg_nonempty by (auto simp: dealCard_def split: if_splits)
  have r: "1 \<le> rankG d ! nat (indexG d)" "rankG d ! nat (indexG d) \<le> 13"
    using valid_deck_rank[OF assms(1)] ok by simp_all
  have l: "Suc 0 < length (rank p)" using assms(6) by (simp add: MAXHAND_def)
  from assms(2-5,7) r l show ?thesis unfolding dealCard_success[OF ok]
    by (auto simp: score_card_def settle_bust_def)
qed

text \<open>
  In play the flags mean what claim C2 takes them to mean. A player's two hands, after a
  turn that started from two dealt cards and an emptied secondary hand, are worth at most
  21 unless busted; a dealer whose turn started from two dealt cards is worth more than
  21 when busted. So a hand that is not busted is won against a busted dealer.
\<close>

lemma busted_dealer_pays_in_play:
  assumes decks: "valid_deck dA1" "valid_deck dA2" "valid_deck dA" "valid_deck dD1" "valid_deck dD2"
      "valid_deck dD"
    and player: "dealCard dA1 (emptyHand hA) = ([], x1, a1)" "dealCard dA2 a1 = ([], x2, a2)"
      "playTurn dA a2 (emptyHand hB) samples = Some (d', pA, pB, rest)"
    and dealer: "dealCard dD1 (emptyHand hD) = ([], y1, c1)" "dealCard dD2 c1 = ([], y2, c2)"
      "dealerTurn dD c2 = Some (dD', dealer)"
    and bust: "busted dealer \<noteq> 0"
  shows "(busted pA = 0 \<longrightarrow> dispResults_hand pA dealer = '' WON with '')
       \<and> (busted pB = 0 \<longrightarrow> dispResults_hand pB dealer = '' WON with '')"
proof -
  note f = first_card_dealt[OF decks(1) player(1)]
  from f have f': "busted a1 = 0" "handvalue a1 \<le> 11" "0 \<le> soft a1" "handsize a1 = 1"
    "length (rank a1) = nat MAXHAND" by simp_all
  note s = second_card_dealt[OF decks(2) f' player(2)]
  from s have a2: "value_ok a2" "2 \<le> handsize a2" "1 \<le> rank a2 ! 1" "rank a2 ! 1 \<le> 13"
    by (simp_all add: value_ok_def)
  have e: "handvalue (emptyHand hB) = 0" "busted (emptyHand hB) = 0"
    by (simp_all add: emptyHand_def)
  note p = playTurn_value_ok[OF decks(3) a2(1) e a2(2,3,4) player(3)]
  note g = first_card_dealt[OF decks(4) dealer(1)]
  from g have g': "busted c1 = 0" "handvalue c1 \<le> 11" "0 \<le> soft c1" "handsize c1 = 1"
    "length (rank c1) = nat MAXHAND" by simp_all
  note t = second_card_dealt[OF decks(5) g' dealer(2)]
  then have "bust_ok c2" by (simp add: bust_ok_def)
  from dealerTurn_bust_ok[OF dealer(3) decks(6) this] bust
  have "21 < handvalue dealer" by (simp add: bust_ok_def)
  with p bust show ?thesis by (auto simp: value_ok_def dispResults_hand_def)
qed

lemma valid_deck_at: "0 \<le> i \<Longrightarrow> valid_deck (deck_at i)"
  by (simp add: valid_deck_def deck_wf_def deck_at_def deck_play_def SINGLEDECK_def)

lemma deck_at_rank:
  "rankG (deck_at i) ! 0 = 10" "rankG (deck_at i) ! 1 = 5" "rankG (deck_at i) ! 2 = 6"
  "rankG (deck_at i) ! 3 = 9" "rankG (deck_at i) ! 4 = 7" "rankG (deck_at i) ! 5 = 8"
  "rankG (deck_at i) ! Suc 0 = 5"
  by (simp_all add: deck_at_def deck_play_def)

lemma deck_at_index: "indexG (deck_at i) = i" "(deck_at i)\<lparr>indexG := j\<rparr> = deck_at j"
  by (simp_all add: deck_at_def)

lemma deal_at:
  "0 \<le> i \<Longrightarrow> i < 52 \<Longrightarrow> 0 \<le> handsize p \<Longrightarrow> handsize p < 12 \<Longrightarrow>
   dealCard (deck_at i) p = ([], deck_at (i + 1), snd (snd (dealCard (deck_at i) p)))"
  by (simp add: dealCard_def Let_def deck_at_index SINGLEDECK_def MAXHAND_def)

lemma player_1_eval: "handsize player_1 = 1" "handvalue player_1 = 10" "busted player_1 = 0"
  by (simp_all add: player_1_def dealCard_def Let_def deck_at_index deck_at_rank
      SINGLEDECK_def MAXHAND_def emptyHand_def score_card_def settle_bust_def)

lemma player_2_eval: "handsize player_2 = 2" "handvalue player_2 = 15" "busted player_2 = 0"
  "rank player_2 ! 0 \<noteq> rank player_2 ! 1" "rank player_2 ! 0 \<noteq> rank player_2 ! Suc 0"
  by (simp_all add: player_2_def player_1_def dealCard_def Let_def deck_at_index deck_at_rank
      SINGLEDECK_def MAXHAND_def emptyHand_def hand0_def score_card_def settle_bust_def)

lemma player_3_eval: "handvalue player_3 = 21" "busted player_3 = 0"
  "rank player_3 ! 0 \<noteq> rank player_3 ! 1" "rank player_3 ! 0 \<noteq> rank player_3 ! Suc 0"
  "empty player_3 = 0"
  by (simp_all add: player_3_def player_2_def player_1_def dealCard_def Let_def deck_at_index
      deck_at_rank SINGLEDECK_def MAXHAND_def emptyHand_def hand0_def score_card_def settle_bust_def)

lemma dealer_1_eval: "handsize dealer_1 = 1"
  by (simp_all add: dealer_1_def dealCard_def Let_def deck_at_index deck_at_rank
      SINGLEDECK_def MAXHAND_def emptyHand_def score_card_def settle_bust_def)

lemma dealer_2_eval: "handsize dealer_2 = 2" "handvalue dealer_2 = 16" "busted dealer_2 = 0"
  by (simp_all add: dealer_2_def dealer_1_def dealCard_def Let_def deck_at_index deck_at_rank
      SINGLEDECK_def MAXHAND_def emptyHand_def hand0_def score_card_def settle_bust_def)

lemma dealer_3_eval: "handvalue dealer_3 = 24" "busted dealer_3 = 1"
  by (simp_all add: dealer_3_def dealer_2_def dealer_1_def dealCard_def Let_def deck_at_index
      deck_at_rank SINGLEDECK_def MAXHAND_def emptyHand_def hand0_def score_card_def settle_bust_def)

lemma example_turn:
  "playTurn (deck_at 2) player_2 (emptyHand hand0) [60, 10, 60, 40]
     = Some (deck_at 3, player_3, emptyHand hand0, [60, 40])"
proof -
  have dc: "dealCard (deck_at 2) player_2 = ([], deck_at 3, player_3)"
    using deal_at[of 2 player_2] by (simp add: player_2_eval player_3_def)
  have 2: "playTurnA 1 (deck_at 3) player_3 (emptyHand hand0) [60, 40]
      = Some (deck_at 3, player_3, emptyHand hand0, [60, 40])"
    by (subst playTurnA.simps) (simp add: player_3_eval)
  have 1: "playTurnA 1 (deck_at 2) player_2 (emptyHand hand0) [60, 10, 60, 40]
        = playTurnA 1 (deck_at 3) player_3 (emptyHand hand0) [60, 40]"
    by (subst playTurnA.simps) (simp add: player_2_eval userInput_60_10 dc)
  have e: "empty (emptyHand hand0) = 1" by (simp add: emptyHand_def)
  show ?thesis by (simp add: playTurn_def 1 2 e)
qed

lemma example_dealer:
  "dealerTurn (deck_at 5) dealer_2 = Some (deck_at 6, dealer_3)"
proof -
  have dc: "dealCard (deck_at 5) dealer_2 = ([], deck_at 6, dealer_3)"
    using deal_at[of 5 dealer_2] by (simp add: dealer_2_eval dealer_3_def)
  have h: "dealer_hits dealer_2" by (simp add: dealer_hits_def dealer_2_eval)
  have n: "\<not> dealer_hits dealer_3" by (simp add: dealer_hits_def dealer_3_eval)
  show ?thesis using dealerTurn_draw[OF h, of "deck_at 5"] dealerTurn_stop[OF n, of "deck_at 6"]
    by (simp add: dc)
qed

text \<open>
  Claim C2, for the hands of a round: a player's primary and secondary hand after the
  player's turn, which started from two dealt cards and an emptied secondary hand, and
  the dealer's hand after the dealer's turn, which started from two dealt cards. A busted
  hand is lost whatever the dealer holds. When neither is busted the hand is won exactly
  when its value is above the dealer's, pushed exactly when the values are equal, lost
  exactly when it is below. A hand that is not busted is won when the dealer is busted.
\<close>

theorem outcome_resolution:
  assumes decks: "valid_deck dA1" "valid_deck dA2" "valid_deck dA" "valid_deck dD1" "valid_deck dD2"
      "valid_deck dD"
    and player: "dealCard dA1 (emptyHand hA) = ([], x1, a1)" "dealCard dA2 a1 = ([], x2, a2)"
      "playTurn dA a2 (emptyHand hB) samples = Some (d', pA, pB, rest)"
    and dealer: "dealCard dD1 (emptyHand hD) = ([], y1, c1)" "dealCard dD2 c1 = ([], y2, c2)"
      "dealerTurn dD c2 = Some (dD', dealer)"
    and p: "p = pA \<or> p = pB"
  shows "(busted p \<noteq> 0 \<longrightarrow> dispResults_hand p dealer = '' LOST with '')
   \<and> (busted p = 0 \<and> busted dealer = 0 \<longrightarrow>
        (dispResults_hand p dealer = '' WON with '' \<longleftrightarrow> handvalue p > handvalue dealer)
      \<and> (dispResults_hand p dealer = '' PUSHED with '' \<longleftrightarrow> handvalue p = handvalue dealer)
      \<and> (dispResults_hand p dealer = '' LOST with '' \<longleftrightarrow> handvalue p < handvalue dealer))
   \<and> (busted p = 0 \<and> busted dealer \<noteq> 0 \<longrightarrow> dispResults_hand p dealer = '' WON with '')"
proof -
  have w: "busted p = 0 \<and> busted dealer \<noteq> 0 \<longrightarrow> dispResults_hand p dealer = '' WON with ''"
  proof
    assume a: "busted p = 0 \<and> busted dealer \<noteq> 0"
    then have b: "busted dealer \<noteq> 0" by simp
    from busted_dealer_pays_in_play[OF decks player dealer b] a p
    show "dispResults_hand p dealer = '' WON with ''" by blast
  qed
  from dispResults_hand_cases[of p dealer] w show ?thesis by blast
qed

theorem outcome_resolution_witness:
  "playTurn (deck_at 2) player_2 (emptyHand hand0) [60, 10, 60, 40]
     = Some (deck_at 3, player_3, emptyHand hand0, [60, 40])
   \<and> dealerTurn (deck_at 5) dealer_2 = Some (deck_at 6, dealer_3)
   \<and> busted player_3 = 0 \<and> handvalue player_3 = 21
   \<and> busted dealer_3 = 1 \<and> handvalue dealer_3 = 24
   \<and> dispResults_hand player_3 dealer_3 = '' WON with ''"
proof -
  have v: "valid_deck (deck_at 0)" "valid_deck (deck_at 1)" "valid_deck (deck_at 2)"
    "valid_deck (deck_at 3)" "valid_deck (deck_at 4)" "valid_deck (deck_at 5)"
    by (simp_all add: valid_deck_at)
  have e: "handsize (emptyHand hand0) = 0" by (simp add: emptyHand_def)
  have p1: "dealCard (deck_at 0) (emptyHand hand0) = ([], deck_at 1, player_1)"
    using deal_at[of 0 "emptyHand hand0"] by (simp add: e player_1_def)
  have p2: "dealCard (deck_at 1) player_1 = ([], deck_at 2, player_2)"
    using deal_at[of 1 player_1] by (simp add: player_1_eval player_2_def)
  have d1: "dealCard (deck_at 3) (emptyHand hand0) = ([], deck_at 4, dealer_1)"
    using deal_at[of 3 "emptyHand hand0"] by (simp add: e dealer_1_def)
  have d2: "dealCard (deck_at 4) dealer_1 = ([], deck_at 5, dealer_2)"
    using deal_at[of 4 dealer_1] by (simp add: dealer_1_eval dealer_2_def)
  have "player_3 = player_3 \<or> player_3 = emptyHand hand0" by simp
  from outcome_resolution[OF v p1 p2 example_turn d1 d2 example_dealer this]
  show ?thesis by (simp add: example_turn example_dealer player_3_eval dealer_3_eval)
qed

end
